theory Spec2Isabelle
  imports Main
begin

section \<open>tinyJson: the document tree, its slab pools, the parser and the printer\<close>

text \<open>
  The development follows \<^verbatim>\<open>tinyJson.h\<close> and \<^verbatim>\<open>tinyJson.cpp\<close>.  The source only
  compiles with \<^verbatim>\<open>DEBUG\<close> defined (\<^verbatim>\<open>MemPoolT\<close> initialises and increments
  \<^verbatim>\<open>_nUntracked\<close> unconditionally while declaring it under \<^verbatim>\<open>#ifdef DEBUG\<close>), so
  the debug build is the one modelled: the untracked counter is kept.

  Pointers into the character buffer are indices (\<open>nat\<close>); a nullable \<^verbatim>\<open>char *\<close> is a
  \<open>nat option\<close> with \<open>None\<close> for \<^verbatim>\<open>nullptr\<close>.  The intrusive sibling chain
  \<^verbatim>\<open>_firstChild \<dots> _lastChild\<close> of a node is the list of its children in insertion order.
\<close>

subsection \<open>Outcomes of a run\<close>

text \<open>
  A C++ routine either returns, or runs into undefined behaviour (a null pointer is
  dereferenced, or a byte outside the buffer is read).  The recursive parse routines carry a
  recursion budget; \<open>OutOfFuel\<close> says the budget was too small.
\<close>

datatype fault = NullDeref | OutOfBounds

datatype 'a run = Ret 'a | Fault fault | OutOfFuel

subsection \<open>\<^verbatim>\<open>enum class JsonError\<close>\<close>

datatype JsonError =
    JSON_NO_ERROR
  | JSON_ERROR_FILE_NOT_FOUND
  | JSON_ERROR_FILE_COULD_NOT_BE_OPENED
  | JSON_ERROR_FILE_READ_ERROR
  | JSON_ERROR_MEM_POOL_ERROR
  | JSON_ERROR_OBJECT_MISMATCH
  | JSON_ERROR_PARSING_OBJECT
  | JSON_ERROR_ARRAY_MISMATCH
  | JSON_ERROR_PARSING_ELEMENT
  | JSON_ERROR_PARSING_NUMBER
  | JSON_ERROR_PARSING_STRING
  | JSON_ERROR_PARSING_RESERVED
  | JSON_ERROR_PARSING
  | JSON_ERROR_EMPTY_DOCUMENT

subsection \<open>Bytes and \<^verbatim>\<open>JsonUtil\<close>\<close>

abbreviation NUL :: char where "NUL \<equiv> CHR 0x00"
abbreviation DQUOTE :: char where "DQUOTE \<equiv> CHR 0x22"
abbreviation BACKSLASH :: char where "BACKSLASH \<equiv> CHR 0x5C"

text \<open>
  \<open>byte_at buf p\<close> is \<^verbatim>\<open>*p\<close>.  The only pointer arithmetic of the source that is not
  preceded by a read of a non-NUL byte at the old position is the escape skip of
  \<^verbatim>\<open>JsonString::ParseDeep\<close>; that routine checks the bound itself and reports
  \<open>Fault OutOfBounds\<close>.  Everywhere else the cursor stays inside the NUL-terminated
  buffer (lemma \<open>parse_progress\<close> below), so the value chosen here for an index outside the
  buffer is never used by a run that starts in \<open>Parse\<close>.
\<close>

definition byte_at :: "char list \<Rightarrow> nat \<Rightarrow> char" where
  "byte_at buf p = (if p < length buf then buf ! p else NUL)"

text \<open>\<^verbatim>\<open>p & 0x80\<close>: the high bit of the byte.\<close>

definition IsUTF8Continuation :: "char \<Rightarrow> bool" where
  "IsUTF8Continuation p = digit7 p"

text \<open>\<^verbatim>\<open>isspace\<close> of \<^verbatim>\<open>ctype.h\<close> in the C locale: space, \<^verbatim>\<open>\t \n \v \f \r\<close>.\<close>

definition isspace :: "char \<Rightarrow> bool" where
  "isspace c = (c = CHR 0x20 \<or> c = CHR 0x09 \<or> c = CHR 0x0A \<or> c = CHR 0x0B
                \<or> c = CHR 0x0C \<or> c = CHR 0x0D)"

definition IsWhiteSpace :: "char \<Rightarrow> bool" where
  "IsWhiteSpace p = (\<not> IsUTF8Continuation p \<and> isspace p)"

text \<open>The loop of \<^verbatim>\<open>SkipWhiteSpace\<close> on a non-null pointer.\<close>

function SkipWhiteSpace_loop :: "char list \<Rightarrow> nat \<Rightarrow> nat" where
  "SkipWhiteSpace_loop buf p =
     (if \<not> IsUTF8Continuation (byte_at buf p) \<and> isspace (byte_at buf p)
      then SkipWhiteSpace_loop buf (Suc p) else p)"
  by pat_completeness auto
termination
  by (relation "measure (\<lambda>(buf, p). length buf - p)")
     (auto simp: byte_at_def isspace_def split: if_splits)

declare SkipWhiteSpace_loop.simps [simp del]

definition SkipWhiteSpace :: "char list \<Rightarrow> nat option \<Rightarrow> nat option" where
  "SkipWhiteSpace buf p =
     (case p of None \<Rightarrow> None | Some q \<Rightarrow> Some (SkipWhiteSpace_loop buf q))"

text \<open>The C string that starts at \<open>p\<close>: the bytes up to the first NUL.\<close>

definition c_str :: "char list \<Rightarrow> nat \<Rightarrow> string" where
  "c_str buf p = takeWhile (\<lambda>c. c \<noteq> NUL) (drop p buf)"

subsection \<open>\<^verbatim>\<open>strtod\<close>\<close>

text \<open>
  \<^verbatim>\<open>strtod\<close> is the platform's; only the length of the text it converts matters to the
  parser (the \<^verbatim>\<open>float\<close> value itself is not modelled: a Number node keeps the converted
  text).  The subject sequence is that of ISO C99 7.20.1.3: leading white space, an optional
  sign, then a decimal or hexadecimal floating constant, \<^verbatim>\<open>INF\<close>/\<^verbatim>\<open>INFINITY\<close> or
  \<^verbatim>\<open>NAN\<close>/\<^verbatim>\<open>NAN(\<dots>)\<close>, letters in either case.  Each scanner returns the text that
  follows what it accepted.
\<close>

definition isdigit :: "char \<Rightarrow> bool" where
  "isdigit c = (c \<in> set ''0123456789'')"

definition isxdigit :: "char \<Rightarrow> bool" where
  "isxdigit c = (c \<in> set ''0123456789abcdefABCDEF'')"

definition isnchar :: "char \<Rightarrow> bool" where
  "isnchar c = (c \<in> set ''0123456789abcdefghijklmnopqrstuvwxyzABCDEFGHIJKLMNOPQRSTUVWXYZ_'')"

fun ci_prefix :: "(char \<times> char) list \<Rightarrow> string \<Rightarrow> string option" where
  "ci_prefix [] s = Some s"
| "ci_prefix (lu # ps) [] = None"
| "ci_prefix (lu # ps) (c # cs) = (if c = fst lu \<or> c = snd lu then ci_prefix ps cs else None)"

definition mantissa :: "(char \<Rightarrow> bool) \<Rightarrow> string \<Rightarrow> string option" where
  "mantissa dig s =
     (let r1 = dropWhile dig s in
      case r1 of
        [] \<Rightarrow> if r1 = s then None else Some r1
      | c # r2 \<Rightarrow>
          if c = CHR ''.''
          then (let r3 = dropWhile dig r2 in if r1 = s \<and> r3 = r2 then None else Some r3)
          else if r1 = s then None else Some r1)"

definition exponent :: "char \<Rightarrow> char \<Rightarrow> string \<Rightarrow> string" where
  "exponent l u s =
     (case s of
        [] \<Rightarrow> s
      | c # r1 \<Rightarrow>
          if c = l \<or> c = u
          then (let r2 = (case r1 of [] \<Rightarrow> r1
                          | sg # r \<Rightarrow> if sg = CHR ''+'' \<or> sg = CHR ''-'' then r else r1);
                    r3 = dropWhile isdigit r2
                in if r3 = r2 then s else r3)
          else s)"

definition nan_suffix :: "string \<Rightarrow> string" where
  "nan_suffix s =
     (case s of
        [] \<Rightarrow> s
      | c # r1 \<Rightarrow>
          if c = CHR ''(''
          then (case dropWhile isnchar r1 of [] \<Rightarrow> s
                | c2 # r3 \<Rightarrow> if c2 = CHR '')'' then r3 else s)
          else s)"

definition decimal_constant :: "string \<Rightarrow> string option" where
  "decimal_constant s = map_option (exponent (CHR ''e'') (CHR ''E'')) (mantissa isdigit s)"

definition strtod_unsigned :: "string \<Rightarrow> string option" where
  "strtod_unsigned s =
     (case ci_prefix [(CHR ''i'', CHR ''I''), (CHR ''n'', CHR ''N''), (CHR ''f'', CHR ''F'')] s of
        Some r \<Rightarrow>
          Some (case ci_prefix [(CHR ''i'', CHR ''I''), (CHR ''n'', CHR ''N''),
                                (CHR ''i'', CHR ''I''), (CHR ''t'', CHR ''T''),
                                (CHR ''y'', CHR ''Y'')] r of
                  Some r' \<Rightarrow> r' | None \<Rightarrow> r)
      | None \<Rightarrow>
         (case ci_prefix [(CHR ''n'', CHR ''N''), (CHR ''a'', CHR ''A''), (CHR ''n'', CHR ''N'')] s of
            Some r \<Rightarrow> Some (nan_suffix r)
          | None \<Rightarrow>
             (case ci_prefix [(CHR ''0'', CHR ''0''), (CHR ''x'', CHR ''X'')] s of
                Some r \<Rightarrow>
                  (case mantissa isxdigit r of
                     Some r' \<Rightarrow> Some (exponent (CHR ''p'') (CHR ''P'') r')
                   | None \<Rightarrow> decimal_constant s)
              | None \<Rightarrow> decimal_constant s)))"

definition strtod_end :: "string \<Rightarrow> string option" where
  "strtod_end s =
     (let s1 = dropWhile isspace s;
          s2 = (case s1 of [] \<Rightarrow> s1
                | c # r \<Rightarrow> if c = CHR ''+'' \<or> c = CHR ''-'' then r else s1)
      in strtod_unsigned s2)"

text \<open>\<^verbatim>\<open>endptr - nptr\<close>; \<open>0\<close> when no conversion is performed.\<close>

definition strtod_len :: "string \<Rightarrow> nat" where
  "strtod_len s = (case strtod_end s of None \<Rightarrow> 0 | Some rest \<Rightarrow> length s - length rest)"

subsection \<open>\<^verbatim>\<open>MemPoolT\<close>\<close>

text \<open>
  The accounting of a pool.  The free list and the blocks decide only which address a slot
  has; the node tree below does not depend on addresses, so they are left out.
\<close>

record MemPoolT =
  currentAllocs :: int
  nAllocs :: int
  maxAllocs :: int
  nUntracked :: int

definition MemPoolT_init :: MemPoolT where
  "MemPoolT_init = \<lparr>currentAllocs = 0, nAllocs = 0, maxAllocs = 0, nUntracked = 0\<rparr>"

definition Alloc :: "MemPoolT \<Rightarrow> MemPoolT" where
  "Alloc p =
     (let c = currentAllocs p + 1 in
      p\<lparr>currentAllocs := c,
        maxAllocs := (if c > maxAllocs p then c else maxAllocs p),
        nAllocs := nAllocs p + 1,
        nUntracked := nUntracked p + 1\<rparr>)"

definition Free :: "MemPoolT \<Rightarrow> MemPoolT" where
  "Free p = p\<lparr>currentAllocs := currentAllocs p - 1\<rparr>"

definition SetTracked :: "MemPoolT \<Rightarrow> MemPoolT" where
  "SetTracked p = p\<lparr>nUntracked := nUntracked p - 1\<rparr>"

definition CurrentAllocs :: "MemPoolT \<Rightarrow> int" where
  "CurrentAllocs p = currentAllocs p"

subsection \<open>Nodes\<close>

datatype PoolId = ObjectPool | ArrayPool | ElementPool | NumberPool | StringPool | ReservedPool

datatype Type = RESERVED | RESERVED_NULL | RESERVED_TRUE | RESERVED_FALSE

text \<open>
  The members a derived class adds to \<^verbatim>\<open>JsonNode\<close>: the literal tag of a Reserved, the
  text \<^verbatim>\<open>strtod\<close> converted for a Number (standing for \<^verbatim>\<open>_valueFloat\<close> and
  \<^verbatim>\<open>_valueInt\<close>; the constructor's \<^verbatim>\<open>0.0f\<close> is the text \<open>0\<close>), the \<^verbatim>\<open>StrPair\<close> of a
  String (\<open>None\<close> while \<^verbatim>\<open>_start\<close> and \<^verbatim>\<open>_end\<close> are null).
\<close>

datatype Kind =
    JsonReserved Type
  | JsonNumber string
  | JsonString "(nat \<times> nat) option"
  | JsonElement
  | JsonObject
  | JsonArray

datatype JsonNode = JsonNode (kind: Kind) (memPool: PoolId) (children: "JsonNode list")

subsection \<open>\<^verbatim>\<open>JsonDocument\<close>\<close>

text \<open>
  \<open>charBuffer = []\<close> stands for \<^verbatim>\<open>_charBuffer == nullptr\<close>: an allocated buffer holds
  at least its terminator.
\<close>

record JsonDocument =
  docChildren :: "JsonNode list"
  errorID :: JsonError
  errorStr1 :: "string option"
  errorStr2 :: "string option"
  charBuffer :: "char list"
  objectPool :: MemPoolT
  arrayPool :: MemPoolT
  elementPool :: MemPoolT
  numberPool :: MemPoolT
  stringPool :: MemPoolT
  reservedPool :: MemPoolT

definition JsonDocument_init :: JsonDocument where
  "JsonDocument_init =
     \<lparr>docChildren = [], errorID = JSON_NO_ERROR, errorStr1 = None, errorStr2 = None,
      charBuffer = [],
      objectPool = MemPoolT_init, arrayPool = MemPoolT_init, elementPool = MemPoolT_init,
      numberPool = MemPoolT_init, stringPool = MemPoolT_init, reservedPool = MemPoolT_init\<rparr>"

text \<open>Following a node's \<^verbatim>\<open>_memPool\<close> pointer.\<close>

fun pool :: "JsonDocument \<Rightarrow> PoolId \<Rightarrow> MemPoolT" where
  "pool d ObjectPool = objectPool d"
| "pool d ArrayPool = arrayPool d"
| "pool d ElementPool = elementPool d"
| "pool d NumberPool = numberPool d"
| "pool d StringPool = stringPool d"
| "pool d ReservedPool = reservedPool d"

fun pool_update :: "PoolId \<Rightarrow> (MemPoolT \<Rightarrow> MemPoolT) \<Rightarrow> JsonDocument \<Rightarrow> JsonDocument" where
  "pool_update ObjectPool f d = d\<lparr>objectPool := f (objectPool d)\<rparr>"
| "pool_update ArrayPool f d = d\<lparr>arrayPool := f (arrayPool d)\<rparr>"
| "pool_update ElementPool f d = d\<lparr>elementPool := f (elementPool d)\<rparr>"
| "pool_update NumberPool f d = d\<lparr>numberPool := f (numberPool d)\<rparr>"
| "pool_update StringPool f d = d\<lparr>stringPool := f (stringPool d)\<rparr>"
| "pool_update ReservedPool f d = d\<lparr>reservedPool := f (reservedPool d)\<rparr>"

text \<open>\<^verbatim>\<open>JsonNode::DeleteNode\<close>: the destructor deletes the children, then the slot is freed.\<close>

fun DeleteNode :: "JsonNode \<Rightarrow> JsonDocument \<Rightarrow> JsonDocument"
  and DeleteChildren :: "JsonNode list \<Rightarrow> JsonDocument \<Rightarrow> JsonDocument" where
  "DeleteNode (JsonNode k pl cs) d = pool_update pl Free (DeleteChildren cs d)"
| "DeleteChildren [] d = d"
| "DeleteChildren (c # cs) d = DeleteChildren cs (DeleteNode c d)"

text \<open>\<^verbatim>\<open>JsonNode::InsertEndChild\<close>: append to the chain, mark the slot as tracked.\<close>

definition InsertEndChild :: "JsonNode list \<Rightarrow> JsonNode \<Rightarrow> JsonDocument
    \<Rightarrow> JsonNode list \<times> JsonDocument" where
  "InsertEndChild this node d = (this @ [node], pool_update (memPool node) SetTracked d)"

definition InitDocument :: "JsonDocument \<Rightarrow> JsonDocument" where
  "InitDocument d =
     d\<lparr>errorID := JSON_NO_ERROR, errorStr1 := None, errorStr2 := None, charBuffer := []\<rparr>"

definition SetError :: "JsonError \<Rightarrow> string option \<Rightarrow> string option \<Rightarrow> JsonDocument
    \<Rightarrow> JsonDocument" where
  "SetError error str1 str2 d =
     (if errorID d = JSON_NO_ERROR
      then d\<lparr>errorID := error, errorStr1 := str1, errorStr2 := str2\<rparr>
      else d)"

text \<open>
  \<^verbatim>\<open>JsonDocument::Identify\<close>.  \<open>node\<close> is the caller's \<^verbatim>\<open>*node\<close>: at the end of the input
  the routine returns before it assigns the out-parameter.  Every caller passes a non-null
  \<^verbatim>\<open>json\<close>, so the null test after \<^verbatim>\<open>SkipWhiteSpace\<close> cannot fire.
\<close>

definition Identify :: "JsonDocument \<Rightarrow> nat \<Rightarrow> JsonNode option
    \<Rightarrow> nat \<times> JsonNode option \<times> JsonDocument" where
  "Identify d json node =
     (let p = SkipWhiteSpace_loop (charBuffer d) json;
          c = byte_at (charBuffer d) p
      in if c = NUL then (p, node, d)
         else if c = CHR ''n'' \<or> c = CHR ''t'' \<or> c = CHR ''f''
           then (p, Some (JsonNode (JsonReserved RESERVED) ReservedPool []),
                 pool_update ReservedPool Alloc d)
         else if c = DQUOTE
           then (p + 1, Some (JsonNode (JsonString None) StringPool []),
                 pool_update StringPool Alloc d)
         else if c = CHR ''{''
           then (p + 1, Some (JsonNode JsonObject ObjectPool []),
                 pool_update ObjectPool Alloc d)
         else if c = CHR ''[''
           then (p + 1, Some (JsonNode JsonArray ArrayPool []),
                 pool_update ArrayPool Alloc d)
         else if c = CHR ''-'' \<or> isdigit c
           then (p, Some (JsonNode (JsonNumber ''0'') NumberPool []),
                 pool_update NumberPool Alloc d)
         else (p, None, d))"

definition CreatElement :: "JsonDocument \<Rightarrow> JsonNode \<times> JsonDocument" where
  "CreatElement d = (JsonNode JsonElement ElementPool [], pool_update ElementPool Alloc d)"

subsection \<open>The leaf grammars\<close>

text \<open>
  A parse routine returns the advanced cursor (\<open>None\<close> for \<^verbatim>\<open>nullptr\<close>), the node it
  was called on as it has left it, and the document.
\<close>

definition JsonReserved_ParseDeep :: "JsonNode \<Rightarrow> nat \<Rightarrow> JsonDocument
    \<Rightarrow> nat option \<times> JsonNode \<times> JsonDocument" where
  "JsonReserved_ParseDeep this json d =
     (if take 4 (drop json (charBuffer d)) = ''null''
        then (Some (json + 4),
              JsonNode (JsonReserved RESERVED_NULL) (memPool this) (children this), d)
      else if take 4 (drop json (charBuffer d)) = ''true''
        then (Some (json + 4),
              JsonNode (JsonReserved RESERVED_TRUE) (memPool this) (children this), d)
      else if take 5 (drop json (charBuffer d)) = ''false''
        then (Some (json + 5),
              JsonNode (JsonReserved RESERVED_FALSE) (memPool this) (children this), d)
      else (None, this, SetError JSON_ERROR_PARSING_RESERVED None None d))"

text \<open>
  \<^verbatim>\<open>__STDC_VERSION__\<close> is not defined in C++, so the \<^verbatim>\<open>strtod\<close> branch is the one
  compiled.
\<close>

definition JsonNumber_ParseDeep :: "JsonNode \<Rightarrow> nat \<Rightarrow> JsonDocument
    \<Rightarrow> nat option \<times> JsonNode \<times> JsonDocument" where
  "JsonNumber_ParseDeep this json d =
     (let p = SkipWhiteSpace_loop (charBuffer d) json;
          s = c_str (charBuffer d) p;
          n = strtod_len s
      in if n \<noteq> 0
         then (Some (p + n), JsonNode (JsonNumber (take n s)) (memPool this) (children this), d)
         else (None, this, SetError JSON_ERROR_OBJECT_MISMATCH None None d))"

text \<open>
  The scan of \<^verbatim>\<open>JsonString::ParseDeep\<close> (\<^verbatim>\<open>++len\<close> is never zero for a buffer
  shorter than \<open>2^31\<close> bytes; \<^verbatim>\<open>len\<close> is not used otherwise).  After a backslash the
  pointer moves two bytes without a look at the byte it steps over.
\<close>

function JsonString_scan :: "char list \<Rightarrow> nat \<Rightarrow> nat run" where
  "JsonString_scan buf ptr =
     (if length buf \<le> ptr then Fault OutOfBounds
      else if buf ! ptr \<noteq> DQUOTE \<and> buf ! ptr \<noteq> NUL
        then (if buf ! ptr = BACKSLASH then JsonString_scan buf (ptr + 2)
              else JsonString_scan buf (ptr + 1))
      else Ret ptr)"
  by pat_completeness auto
termination
  by (relation "measure (\<lambda>(buf, ptr). length buf - ptr)") auto

declare JsonString_scan.simps [simp del]

definition JsonString_ParseDeep :: "JsonNode \<Rightarrow> nat \<Rightarrow> JsonDocument
    \<Rightarrow> (nat option \<times> JsonNode \<times> JsonDocument) run" where
  "JsonString_ParseDeep this json d =
     (case JsonString_scan (charBuffer d) json of
        Ret ptr \<Rightarrow>
          if byte_at (charBuffer d) ptr = NUL
          then Ret (None, this, SetError JSON_ERROR_PARSING_STRING None None d)
          else Ret (Some (ptr + 1),
                    JsonNode (JsonString (Some (json, ptr))) (memPool this) (children this),
                    d\<lparr>charBuffer := (charBuffer d)[ptr := NUL]\<rparr>)
      | Fault f \<Rightarrow> Fault f
      | OutOfFuel \<Rightarrow> OutOfFuel)"

subsection \<open>The recursive grammars\<close>

text \<open>
  \<open>JsonNode_ParseDeep\<close> is the loop of \<^verbatim>\<open>JsonNode::ParseDeep\<close>, run on the child chain
  \<open>this\<close> of the node it is called on (the Document, an Array or an Element);
  \<open>ParseDeep\<close> is the virtual call \<^verbatim>\<open>node->ParseDeep(json)\<close>; the two \<open>_while\<close>
  functions are the comma loops of \<^verbatim>\<open>JsonObject::ParseDeep\<close> and
  \<^verbatim>\<open>JsonArray::ParseDeep\<close>.  Every call site of the source passes a non-null cursor, so
  the cursor argument is an index; \<^verbatim>\<open>JsonObject::ParseDeep\<close> alone reads through a
  pointer that may be null (the result of its first \<^verbatim>\<open>ParseElement\<close>), which is why
  \<open>JsonObject_while\<close> takes a \<open>nat option\<close>.  In \<^verbatim>\<open>ParseElement\<close> the receiver of
  \<^verbatim>\<open>node->ParseDeep\<close> is the Element just created, so the call is
  \<^verbatim>\<open>JsonElement::ParseDeep\<close>.
\<close>

function (sequential) JsonNode_ParseDeep :: "nat \<Rightarrow> JsonNode list \<Rightarrow> nat \<Rightarrow> JsonDocument
      \<Rightarrow> (nat option \<times> JsonNode list \<times> JsonDocument) run"
  and ParseDeep :: "nat \<Rightarrow> JsonNode \<Rightarrow> nat \<Rightarrow> JsonDocument
      \<Rightarrow> (nat option \<times> JsonNode \<times> JsonDocument) run"
  and JsonElement_ParseDeep :: "nat \<Rightarrow> JsonNode list \<Rightarrow> nat \<Rightarrow> JsonDocument
      \<Rightarrow> (nat option \<times> JsonNode list \<times> JsonDocument) run"
  and ParseElement :: "nat \<Rightarrow> JsonNode list \<Rightarrow> nat \<Rightarrow> JsonDocument
      \<Rightarrow> (nat option \<times> JsonNode list \<times> JsonDocument) run"
  and JsonObject_ParseDeep :: "nat \<Rightarrow> JsonNode list \<Rightarrow> nat \<Rightarrow> JsonDocument
      \<Rightarrow> (nat option \<times> JsonNode list \<times> JsonDocument) run"
  and JsonObject_while :: "nat \<Rightarrow> JsonNode list \<Rightarrow> nat option \<Rightarrow> JsonDocument
      \<Rightarrow> (nat option \<times> JsonNode list \<times> JsonDocument) run"
  and JsonArray_ParseDeep :: "nat \<Rightarrow> JsonNode list \<Rightarrow> nat \<Rightarrow> JsonDocument
      \<Rightarrow> (nat option \<times> JsonNode list \<times> JsonDocument) run"
  and JsonArray_while :: "nat \<Rightarrow> JsonNode list \<Rightarrow> nat \<Rightarrow> JsonDocument
      \<Rightarrow> (nat option \<times> JsonNode list \<times> JsonDocument) run"
where
  "JsonNode_ParseDeep 0 this json d = OutOfFuel"
| "JsonNode_ParseDeep (Suc n) this json d =
     (if byte_at (charBuffer d) json = NUL then Ret (Some json, this, d)
      else
        (case Identify d json None of
           (json1, None, d1) \<Rightarrow> Ret (Some json1, this, d1)
         | (json1, Some node, d1) \<Rightarrow>
            (case ParseDeep n node json1 d1 of
               Ret (r, node', d2) \<Rightarrow>
                 (case SkipWhiteSpace (charBuffer d2) r of
                    None \<Rightarrow>
                      Ret (None, this,
                           SetError JSON_ERROR_PARSING None None
                             (DeleteNode node' (pool_update (memPool node') SetTracked d2)))
                  | Some json2 \<Rightarrow>
                      (case InsertEndChild this node' d2 of
                         (this', d3) \<Rightarrow> JsonNode_ParseDeep n this' json2 d3))
             | Fault f \<Rightarrow> Fault f
             | OutOfFuel \<Rightarrow> OutOfFuel)))"
| "ParseDeep 0 node json d = OutOfFuel"
| "ParseDeep (Suc n) node json d =
     (case kind node of
        JsonReserved t \<Rightarrow> Ret (JsonReserved_ParseDeep node json d)
      | JsonNumber v \<Rightarrow> Ret (JsonNumber_ParseDeep node json d)
      | JsonString sp \<Rightarrow> JsonString_ParseDeep node json d
      | JsonElement \<Rightarrow>
          (case JsonElement_ParseDeep n (children node) json d of
             Ret (r, cs, d') \<Rightarrow> Ret (r, JsonNode (kind node) (memPool node) cs, d')
           | Fault f \<Rightarrow> Fault f
           | OutOfFuel \<Rightarrow> OutOfFuel)
      | JsonObject \<Rightarrow>
          (case JsonObject_ParseDeep n (children node) json d of
             Ret (r, cs, d') \<Rightarrow> Ret (r, JsonNode (kind node) (memPool node) cs, d')
           | Fault f \<Rightarrow> Fault f
           | OutOfFuel \<Rightarrow> OutOfFuel)
      | JsonArray \<Rightarrow>
          (case JsonArray_ParseDeep n (children node) json d of
             Ret (r, cs, d') \<Rightarrow> Ret (r, JsonNode (kind node) (memPool node) cs, d')
           | Fault f \<Rightarrow> Fault f
           | OutOfFuel \<Rightarrow> OutOfFuel))"
| "JsonElement_ParseDeep 0 this json d = OutOfFuel"
| "JsonElement_ParseDeep (Suc n) this json d =
     (if byte_at (charBuffer d) json \<noteq> DQUOTE
      then Ret (None, this, SetError JSON_ERROR_PARSING_ELEMENT None None d)
      else
        (case JsonNode_ParseDeep n this json d of
           Ret (r1, this1, d1) \<Rightarrow>
             (case SkipWhiteSpace (charBuffer d1) r1 of
                None \<Rightarrow> Ret (None, this1, SetError JSON_ERROR_PARSING_ELEMENT None None d1)
              | Some json1 \<Rightarrow>
                  if byte_at (charBuffer d1) json1 \<noteq> CHR '':''
                  then Ret (None, this1, SetError JSON_ERROR_PARSING_ELEMENT None None d1)
                  else
                    (case JsonNode_ParseDeep n this1 (json1 + 1) d1 of
                       Ret (r2, this2, d2) \<Rightarrow>
                         (case SkipWhiteSpace (charBuffer d2) r2 of
                            None \<Rightarrow>
                              Ret (None, this2,
                                   SetError JSON_ERROR_PARSING_ELEMENT None None d2)
                          | Some json2 \<Rightarrow> Ret (Some json2, this2, d2))
                     | Fault f \<Rightarrow> Fault f
                     | OutOfFuel \<Rightarrow> OutOfFuel))
         | Fault f \<Rightarrow> Fault f
         | OutOfFuel \<Rightarrow> OutOfFuel))"
| "ParseElement 0 this json d = OutOfFuel"
| "ParseElement (Suc n) this json d =
     (case CreatElement d of
        (node, d0) \<Rightarrow>
          (case JsonElement_ParseDeep n (children node) json d0 of
             Ret (r, cs, d1) \<Rightarrow>
               (case SkipWhiteSpace (charBuffer d1) r of
                  None \<Rightarrow>
                    Ret (None, this,
                         SetError JSON_ERROR_PARSING_ELEMENT None None
                           (DeleteNode (JsonNode (kind node) (memPool node) cs)
                              (pool_update (memPool node) SetTracked d1)))
                | Some json1 \<Rightarrow>
                    (case InsertEndChild this (JsonNode (kind node) (memPool node) cs) d1 of
                       (this', d2) \<Rightarrow> Ret (Some json1, this', d2)))
           | Fault f \<Rightarrow> Fault f
           | OutOfFuel \<Rightarrow> OutOfFuel))"
| "JsonObject_ParseDeep 0 this json d = OutOfFuel"
| "JsonObject_ParseDeep (Suc n) this json d =
     (let p = SkipWhiteSpace_loop (charBuffer d) json in
      if byte_at (charBuffer d) p = NUL
        then Ret (None, this, SetError JSON_ERROR_OBJECT_MISMATCH None None d)
      else if byte_at (charBuffer d) p = CHR ''}''
        then Ret (Some (p + 1), this, d)
      else
        (case ParseElement n this p d of
           Ret (r, this1, d1) \<Rightarrow> JsonObject_while n this1 r d1
         | Fault f \<Rightarrow> Fault f
         | OutOfFuel \<Rightarrow> OutOfFuel))"
| "JsonObject_while 0 this json d = OutOfFuel"
| "JsonObject_while (Suc n) this json d =
     (case json of
        None \<Rightarrow> Fault NullDeref
      | Some p \<Rightarrow>
          if byte_at (charBuffer d) p = CHR '',''
          then
            (case ParseElement n this (p + 1) d of
               Ret (r, this1, d1) \<Rightarrow>
                 (case r of
                    None \<Rightarrow> Ret (None, this1, SetError JSON_ERROR_OBJECT_MISMATCH None None d1)
                  | Some p1 \<Rightarrow> JsonObject_while n this1 (Some p1) d1)
             | Fault f \<Rightarrow> Fault f
             | OutOfFuel \<Rightarrow> OutOfFuel)
          else if byte_at (charBuffer d) p = CHR ''}''
            then Ret (Some (p + 1), this, d)
          else Ret (None, this, SetError JSON_ERROR_OBJECT_MISMATCH None None d))"
| "JsonArray_ParseDeep 0 this json d = OutOfFuel"
| "JsonArray_ParseDeep (Suc n) this json d =
     (let p = SkipWhiteSpace_loop (charBuffer d) json in
      if byte_at (charBuffer d) p = NUL
        then Ret (None, this, SetError JSON_ERROR_ARRAY_MISMATCH None None d)
      else if byte_at (charBuffer d) p = CHR '']''
        then Ret (Some (p + 1), this, d)
      else
        (case JsonNode_ParseDeep n this p d of
           Ret (r, this1, d1) \<Rightarrow>
             (case SkipWhiteSpace (charBuffer d1) r of
                None \<Rightarrow> Ret (None, this1, d1)
              | Some p1 \<Rightarrow> JsonArray_while n this1 p1 d1)
         | Fault f \<Rightarrow> Fault f
         | OutOfFuel \<Rightarrow> OutOfFuel))"
| "JsonArray_while 0 this json d = OutOfFuel"
| "JsonArray_while (Suc n) this json d =
     (if byte_at (charBuffer d) json = CHR '',''
      then
        (case JsonNode_ParseDeep n this (json + 1) d of
           Ret (r, this1, d1) \<Rightarrow>
             (case SkipWhiteSpace (charBuffer d1) r of
                None \<Rightarrow> Ret (None, this1, SetError JSON_ERROR_ARRAY_MISMATCH None None d1)
              | Some p1 \<Rightarrow>
                  if byte_at (charBuffer d1) p1 = NUL
                  then Ret (None, this1, SetError JSON_ERROR_ARRAY_MISMATCH None None d1)
                  else JsonArray_while n this1 p1 d1)
         | Fault f \<Rightarrow> Fault f
         | OutOfFuel \<Rightarrow> OutOfFuel)
      else if byte_at (charBuffer d) json = CHR '']''
        then Ret (Some (json + 1), this, d)
      else Ret (None, this, SetError JSON_ERROR_ARRAY_MISMATCH None None d))"

  by pat_completeness auto
termination
  by (relation "measure (case_sum (case_sum (case_sum fst fst) (case_sum fst fst))
                                  (case_sum (case_sum fst fst) (case_sum fst fst)))")
     simp_all

subsection \<open>\<^verbatim>\<open>JsonDocument::Parse\<close>\<close>

definition strlen :: "string \<Rightarrow> nat" where
  "strlen s = length (takeWhile (\<lambda>c. c \<noteq> NUL) s)"

text \<open>
  \<open>json\<close> is the caller's text without its terminator (\<open>None\<close> for a null pointer), so
  the caller's memory is \<open>text @ [NUL]\<close>; \<open>len\<close> is \<open>None\<close> for the default argument
  \<^verbatim>\<open>(size_t)(-1)\<close>.  A \<open>len\<close> that reaches past the terminator makes \<^verbatim>\<open>memcpy\<close> read
  outside the caller's string.  The Document is the \<^verbatim>\<open>this\<close> of the top-level
  \<^verbatim>\<open>ParseDeep\<close>: the loop runs on its (just emptied) child chain.
\<close>

definition Parse_fuel :: "nat \<Rightarrow> string option \<Rightarrow> nat option \<Rightarrow> JsonDocument
    \<Rightarrow> (JsonError \<times> JsonDocument) run" where
  "Parse_fuel n json len d =
     (let d1 = InitDocument ((DeleteChildren (docChildren d) d)\<lparr>docChildren := []\<rparr>) in
      case json of
        None \<Rightarrow>
          (let d2 = SetError JSON_ERROR_EMPTY_DOCUMENT None None d1 in Ret (errorID d2, d2))
      | Some text \<Rightarrow>
          if byte_at (text @ [NUL]) 0 = NUL
          then (let d2 = SetError JSON_ERROR_EMPTY_DOCUMENT None None d1 in Ret (errorID d2, d2))
          else
            (let l = (case len of None \<Rightarrow> strlen text | Some l \<Rightarrow> l) in
             if length text + 1 < l then Fault OutOfBounds
             else
               (let d2 = d1\<lparr>charBuffer := take l (text @ [NUL]) @ [NUL]\<rparr> in
                if byte_at (text @ [NUL]) (SkipWhiteSpace_loop (text @ [NUL]) 0) = NUL
                then (let d3 = SetError JSON_ERROR_EMPTY_DOCUMENT None None d2
                      in Ret (errorID d3, d3))
                else
                  (case JsonNode_ParseDeep n [] 0 d2 of
                     Ret (r, this, d3) \<Rightarrow>
                       Ret (errorID d3, d3\<lparr>docChildren := this\<rparr>)
                   | Fault f \<Rightarrow> Fault f
                   | OutOfFuel \<Rightarrow> OutOfFuel))))"

text \<open>
  The recursion budget \<open>Parse\<close> hands to the top-level loop.  Five levels of calls per byte
  of the buffer are enough for every text (theorem \<open>Parse_returns\<close>).
\<close>

definition Parse_budget :: "string option \<Rightarrow> nat option \<Rightarrow> nat" where
  "Parse_budget json len =
     (case json of
        None \<Rightarrow> 0
      | Some text \<Rightarrow> 5 * (case len of None \<Rightarrow> strlen text | Some l \<Rightarrow> l) + 1)"

definition Parse :: "string option \<Rightarrow> nat option \<Rightarrow> JsonDocument
    \<Rightarrow> (JsonError \<times> JsonDocument) run" where
  "Parse json len d = Parse_fuel (Parse_budget json len) json len d"

subsection \<open>\<^verbatim>\<open>JsonPrinter\<close>\<close>

record JsonPrinter =
  depth :: int
  out :: string

definition JsonPrinter_init :: JsonPrinter where
  "JsonPrinter_init = \<lparr>depth = 0, out = []\<rparr>"

definition append :: "string \<Rightarrow> JsonPrinter \<Rightarrow> JsonPrinter" where
  "append s pr = pr\<lparr>out := out pr @ s\<rparr>"

definition PrintSpace :: "int \<Rightarrow> JsonPrinter \<Rightarrow> JsonPrinter" where
  "PrintSpace dp pr = append (concat (replicate (nat dp) ''    '')) pr"

text \<open>
  \<^verbatim>\<open>PrintPrevSymbol\<close>.  A node of a document tree always has a parent (the Document for a
  top-level value, and \<^verbatim>\<open>JsonDocument::ToElement()\<close> is null); \<open>parentIsElement\<close> is
  \<^verbatim>\<open>parent->ToElement() != nullptr\<close> and \<open>hasPrev\<close> is
  \<^verbatim>\<open>node.PreviousSibling() != nullptr\<close>.
\<close>

definition PrintPrevSymbol :: "bool \<Rightarrow> bool \<Rightarrow> JsonNode \<Rightarrow> JsonPrinter \<Rightarrow> JsonPrinter" where
  "PrintPrevSymbol parentIsElement hasPrev node pr =
     (if hasPrev \<and> parentIsElement then append '' : '' pr
      else
        (let pr1 = (if hasPrev then append ('','' @ [CHR 0x0A]) pr else pr)
         in if kind node \<noteq> JsonElement then PrintSpace (depth pr1) pr1 else pr1))"

text \<open>\<^verbatim>\<open>StrPair::GetStr\<close>: the C string at \<^verbatim>\<open>_start\<close> in the Document's buffer.\<close>

definition GetStr :: "char list \<Rightarrow> (nat \<times> nat) option \<Rightarrow> string" where
  "GetStr buf sp =
     (case sp of
        None \<Rightarrow> []
      | Some (start, end') \<Rightarrow> if start = end' then [] else c_str buf start)"

text \<open>
  \<^verbatim>\<open>Accept\<close> with a \<^verbatim>\<open>JsonPrinter\<close> as the visitor.  Every visit function of the printer
  returns \<^verbatim>\<open>true\<close>, so no loop over the children stops early.  \<open>fmt\<close> is the text that
  \<^verbatim>\<open>operator<<\<close> writes for the \<^verbatim>\<open>float\<close> of a Number, given the text the Number was
  converted from; \<open>buf\<close> is the Document's buffer, which the String nodes point into.
\<close>

fun Accept :: "(string \<Rightarrow> string) \<Rightarrow> char list \<Rightarrow> bool \<Rightarrow> bool \<Rightarrow> JsonNode
      \<Rightarrow> JsonPrinter \<Rightarrow> JsonPrinter"
  and Accept_children :: "(string \<Rightarrow> string) \<Rightarrow> char list \<Rightarrow> bool \<Rightarrow> bool \<Rightarrow> JsonNode list
      \<Rightarrow> JsonPrinter \<Rightarrow> JsonPrinter"
where
  "Accept fmt buf parentIsElement hasPrev (JsonNode k pl cs) pr =
     (let pr1 = PrintPrevSymbol parentIsElement hasPrev (JsonNode k pl cs) pr in
      case k of
        JsonObject \<Rightarrow>
          (let pr2 = (append (''{'' @ [CHR 0x0A]) pr1)\<lparr>depth := depth pr1 + 1\<rparr>;
               pr3 = Accept_children fmt buf False False cs pr2;
               pr4 = (append [CHR 0x0A] pr3)\<lparr>depth := depth pr3 - 1\<rparr>
           in append ''}'' (PrintSpace (depth pr4) pr4))
      | JsonArray \<Rightarrow>
          (let pr2 = (append (''['' @ [CHR 0x0A]) pr1)\<lparr>depth := depth pr1 + 1\<rparr>;
               pr3 = Accept_children fmt buf False False cs pr2;
               pr4 = (append [CHR 0x0A] pr3)\<lparr>depth := depth pr3 - 1\<rparr>
           in append '']'' (PrintSpace (depth pr4) pr4))
      | JsonElement \<Rightarrow> Accept_children fmt buf True False cs pr1
      | JsonNumber v \<Rightarrow> append (fmt v) pr1
      | JsonString sp \<Rightarrow> append ([DQUOTE] @ GetStr buf sp @ [DQUOTE]) pr1
      | JsonReserved t \<Rightarrow>
          (case t of
             RESERVED_NULL \<Rightarrow> append ''null'' pr1
           | RESERVED_TRUE \<Rightarrow> append ''true'' pr1
           | RESERVED_FALSE \<Rightarrow> append ''flase'' pr1
           | RESERVED \<Rightarrow> pr1))"
| "Accept_children fmt buf parentIsElement hasPrev [] pr = pr"
| "Accept_children fmt buf parentIsElement hasPrev (c # cs) pr =
     Accept_children fmt buf parentIsElement True cs
       (Accept fmt buf parentIsElement hasPrev c pr)"

text \<open>\<^verbatim>\<open>JsonDocument::Accept\<close> with a fresh printer, then \<^verbatim>\<open>GetString\<close>.\<close>

definition print_document :: "(string \<Rightarrow> string) \<Rightarrow> JsonDocument \<Rightarrow> string" where
  "print_document fmt d =
     out (Accept_children fmt (charBuffer d) False False (docChildren d) JsonPrinter_init)"

text \<open>A fresh Document whose buffer holds a copy of \<open>text\<close>, as \<open>Parse\<close> prepares it.\<close>

definition buffered :: "string \<Rightarrow> JsonDocument" where
  "buffered text = JsonDocument_init\<lparr>charBuffer := text @ [NUL]\<rparr>"

text \<open>
  The Document's error slot, and the relation between two states of a Document that says:
  an error recorded in the first is still the one recorded in the second.
\<close>

definition error_slot :: "JsonDocument \<Rightarrow> JsonError \<times> string option \<times> string option" where
  "error_slot d = (errorID d, errorStr1 d, errorStr2 d)"

definition keeps_error :: "JsonDocument \<Rightarrow> JsonDocument \<Rightarrow> bool" where
  "keeps_error d d' = (errorID d \<noteq> JSON_NO_ERROR \<longrightarrow> error_slot d' = error_slot d)"

subsection \<open>The calls of \<^verbatim>\<open>SetError\<close>, in order\<close>

text \<open>
  The parse routines once more, with one more variable threaded through them: the list of the
  calls of \<^verbatim>\<open>SetError\<close> made so far, each with its arguments, in the order of the
  calls.  Every routine is the routine of the same name above, line for line; where the source
  calls \<^verbatim>\<open>SetError\<close> the call is appended to the list.  The list is not read anywhere, so it has
  no influence on the run.
\<close>

type_synonym ErrorLog = "(JsonError \<times> string option \<times> string option) list"

definition logged :: "JsonError \<Rightarrow> string option \<Rightarrow> string option \<Rightarrow> ErrorLog \<Rightarrow> ErrorLog" where
  "logged error str1 str2 lg = lg @ [(error, str1, str2)]"

definition JsonReserved_ParseDeep_log :: "JsonNode \<Rightarrow> nat \<Rightarrow> JsonDocument \<Rightarrow> ErrorLog
    \<Rightarrow> nat option \<times> JsonNode \<times> JsonDocument \<times> ErrorLog" where
  "JsonReserved_ParseDeep_log this json d lg =
     (if take 4 (drop json (charBuffer d)) = ''null''
        then (Some (json + 4),
              JsonNode (JsonReserved RESERVED_NULL) (memPool this) (children this), d, lg)
      else if take 4 (drop json (charBuffer d)) = ''true''
        then (Some (json + 4),
              JsonNode (JsonReserved RESERVED_TRUE) (memPool this) (children this), d, lg)
      else if take 5 (drop json (charBuffer d)) = ''false''
        then (Some (json + 5),
              JsonNode (JsonReserved RESERVED_FALSE) (memPool this) (children this), d, lg)
      else (None, this, SetError JSON_ERROR_PARSING_RESERVED None None d,
            logged JSON_ERROR_PARSING_RESERVED None None lg))"

definition JsonNumber_ParseDeep_log :: "JsonNode \<Rightarrow> nat \<Rightarrow> JsonDocument \<Rightarrow> ErrorLog
    \<Rightarrow> nat option \<times> JsonNode \<times> JsonDocument \<times> ErrorLog" where
  "JsonNumber_ParseDeep_log this json d lg =
     (let p = SkipWhiteSpace_loop (charBuffer d) json;
          s = c_str (charBuffer d) p;
          n = strtod_len s
      in if n \<noteq> 0
         then (Some (p + n), JsonNode (JsonNumber (take n s)) (memPool this) (children this),
               d, lg)
         else (None, this, SetError JSON_ERROR_OBJECT_MISMATCH None None d,
               logged JSON_ERROR_OBJECT_MISMATCH None None lg))"

definition JsonString_ParseDeep_log :: "JsonNode \<Rightarrow> nat \<Rightarrow> JsonDocument \<Rightarrow> ErrorLog
    \<Rightarrow> (nat option \<times> JsonNode \<times> JsonDocument \<times> ErrorLog) run" where
  "JsonString_ParseDeep_log this json d lg =
     (case JsonString_scan (charBuffer d) json of
        Ret ptr \<Rightarrow>
          if byte_at (charBuffer d) ptr = NUL
          then Ret (None, this, SetError JSON_ERROR_PARSING_STRING None None d,
                    logged JSON_ERROR_PARSING_STRING None None lg)
          else Ret (Some (ptr + 1),
                    JsonNode (JsonString (Some (json, ptr))) (memPool this) (children this),
                    d\<lparr>charBuffer := (charBuffer d)[ptr := NUL]\<rparr>, lg)
      | Fault f \<Rightarrow> Fault f
      | OutOfFuel \<Rightarrow> OutOfFuel)"

function (sequential) JsonNode_ParseDeep_log :: "nat \<Rightarrow> JsonNode list \<Rightarrow> nat
      \<Rightarrow> JsonDocument \<Rightarrow> ErrorLog
      \<Rightarrow> (nat option \<times> JsonNode list \<times> JsonDocument \<times> ErrorLog) run"
  and ParseDeep_log :: "nat \<Rightarrow> JsonNode \<Rightarrow> nat \<Rightarrow> JsonDocument \<Rightarrow> ErrorLog
      \<Rightarrow> (nat option \<times> JsonNode \<times> JsonDocument \<times> ErrorLog) run"
  and JsonElement_ParseDeep_log :: "nat \<Rightarrow> JsonNode list \<Rightarrow> nat
      \<Rightarrow> JsonDocument \<Rightarrow> ErrorLog
      \<Rightarrow> (nat option \<times> JsonNode list \<times> JsonDocument \<times> ErrorLog) run"
  and ParseElement_log :: "nat \<Rightarrow> JsonNode list \<Rightarrow> nat \<Rightarrow> JsonDocument \<Rightarrow> ErrorLog
      \<Rightarrow> (nat option \<times> JsonNode list \<times> JsonDocument \<times> ErrorLog) run"
  and JsonObject_ParseDeep_log :: "nat \<Rightarrow> JsonNode list \<Rightarrow> nat
      \<Rightarrow> JsonDocument \<Rightarrow> ErrorLog
      \<Rightarrow> (nat option \<times> JsonNode list \<times> JsonDocument \<times> ErrorLog) run"
  and JsonObject_while_log :: "nat \<Rightarrow> JsonNode list \<Rightarrow> nat option
      \<Rightarrow> JsonDocument \<Rightarrow> ErrorLog
      \<Rightarrow> (nat option \<times> JsonNode list \<times> JsonDocument \<times> ErrorLog) run"
  and JsonArray_ParseDeep_log :: "nat \<Rightarrow> JsonNode list \<Rightarrow> nat
      \<Rightarrow> JsonDocument \<Rightarrow> ErrorLog
      \<Rightarrow> (nat option \<times> JsonNode list \<times> JsonDocument \<times> ErrorLog) run"
  and JsonArray_while_log :: "nat \<Rightarrow> JsonNode list \<Rightarrow> nat
      \<Rightarrow> JsonDocument \<Rightarrow> ErrorLog
      \<Rightarrow> (nat option \<times> JsonNode list \<times> JsonDocument \<times> ErrorLog) run"
where
  "JsonNode_ParseDeep_log 0 this json d lg = OutOfFuel"
| "JsonNode_ParseDeep_log (Suc n) this json d lg =
     (if byte_at (charBuffer d) json = NUL then Ret (Some json, this, d, lg)
      else
        (case Identify d json None of
           (json1, None, d1) \<Rightarrow> Ret (Some json1, this, d1, lg)
         | (json1, Some node, d1) \<Rightarrow>
            (case ParseDeep_log n node json1 d1 lg of
               Ret (r, node', d2, lg2) \<Rightarrow>
                 (case SkipWhiteSpace (charBuffer d2) r of
                    None \<Rightarrow>
                      Ret (None, this,
                           SetError JSON_ERROR_PARSING None None
                             (DeleteNode node' (pool_update (memPool node') SetTracked d2)),
                           logged JSON_ERROR_PARSING None None lg2)
                  | Some json2 \<Rightarrow>
                      (case InsertEndChild this node' d2 of
                         (this', d3) \<Rightarrow> JsonNode_ParseDeep_log n this' json2 d3 lg2))
             | Fault f \<Rightarrow> Fault f
             | OutOfFuel \<Rightarrow> OutOfFuel)))"
| "ParseDeep_log 0 node json d lg = OutOfFuel"
| "ParseDeep_log (Suc n) node json d lg =
     (case kind node of
        JsonReserved t \<Rightarrow> Ret (JsonReserved_ParseDeep_log node json d lg)
      | JsonNumber v \<Rightarrow> Ret (JsonNumber_ParseDeep_log node json d lg)
      | JsonString sp \<Rightarrow> JsonString_ParseDeep_log node json d lg
      | JsonElement \<Rightarrow>
          (case JsonElement_ParseDeep_log n (children node) json d lg of
             Ret (r, cs, d', lg') \<Rightarrow> Ret (r, JsonNode (kind node) (memPool node) cs, d', lg')
           | Fault f \<Rightarrow> Fault f
           | OutOfFuel \<Rightarrow> OutOfFuel)
      | JsonObject \<Rightarrow>
          (case JsonObject_ParseDeep_log n (children node) json d lg of
             Ret (r, cs, d', lg') \<Rightarrow> Ret (r, JsonNode (kind node) (memPool node) cs, d', lg')
           | Fault f \<Rightarrow> Fault f
           | OutOfFuel \<Rightarrow> OutOfFuel)
      | JsonArray \<Rightarrow>
          (case JsonArray_ParseDeep_log n (children node) json d lg of
             Ret (r, cs, d', lg') \<Rightarrow> Ret (r, JsonNode (kind node) (memPool node) cs, d', lg')
           | Fault f \<Rightarrow> Fault f
           | OutOfFuel \<Rightarrow> OutOfFuel))"
| "JsonElement_ParseDeep_log 0 this json d lg = OutOfFuel"
| "JsonElement_ParseDeep_log (Suc n) this json d lg =
     (if byte_at (charBuffer d) json \<noteq> DQUOTE
      then Ret (None, this, SetError JSON_ERROR_PARSING_ELEMENT None None d,
                logged JSON_ERROR_PARSING_ELEMENT None None lg)
      else
        (case JsonNode_ParseDeep_log n this json d lg of
           Ret (r1, this1, d1, lg1) \<Rightarrow>
             (case SkipWhiteSpace (charBuffer d1) r1 of
                None \<Rightarrow> Ret (None, this1, SetError JSON_ERROR_PARSING_ELEMENT None None d1,
                             logged JSON_ERROR_PARSING_ELEMENT None None lg1)
              | Some json1 \<Rightarrow>
                  if byte_at (charBuffer d1) json1 \<noteq> CHR '':''
                  then Ret (None, this1, SetError JSON_ERROR_PARSING_ELEMENT None None d1,
                            logged JSON_ERROR_PARSING_ELEMENT None None lg1)
                  else
                    (case JsonNode_ParseDeep_log n this1 (json1 + 1) d1 lg1 of
                       Ret (r2, this2, d2, lg2) \<Rightarrow>
                         (case SkipWhiteSpace (charBuffer d2) r2 of
                            None \<Rightarrow>
                              Ret (None, this2,
                                   SetError JSON_ERROR_PARSING_ELEMENT None None d2,
                                   logged JSON_ERROR_PARSING_ELEMENT None None lg2)
                          | Some json2 \<Rightarrow> Ret (Some json2, this2, d2, lg2))
                     | Fault f \<Rightarrow> Fault f
                     | OutOfFuel \<Rightarrow> OutOfFuel))
         | Fault f \<Rightarrow> Fault f
         | OutOfFuel \<Rightarrow> OutOfFuel))"
| "ParseElement_log 0 this json d lg = OutOfFuel"
| "ParseElement_log (Suc n) this json d lg =
     (case CreatElement d of
        (node, d0) \<Rightarrow>
          (case JsonElement_ParseDeep_log n (children node) json d0 lg of
             Ret (r, cs, d1, lg1) \<Rightarrow>
               (case SkipWhiteSpace (charBuffer d1) r of
                  None \<Rightarrow>
                    Ret (None, this,
                         SetError JSON_ERROR_PARSING_ELEMENT None None
                           (DeleteNode (JsonNode (kind node) (memPool node) cs)
                              (pool_update (memPool node) SetTracked d1)),
                         logged JSON_ERROR_PARSING_ELEMENT None None lg1)
                | Some json1 \<Rightarrow>
                    (case InsertEndChild this (JsonNode (kind node) (memPool node) cs) d1 of
                       (this', d2) \<Rightarrow> Ret (Some json1, this', d2, lg1)))
           | Fault f \<Rightarrow> Fault f
           | OutOfFuel \<Rightarrow> OutOfFuel))"
| "JsonObject_ParseDeep_log 0 this json d lg = OutOfFuel"
| "JsonObject_ParseDeep_log (Suc n) this json d lg =
     (let p = SkipWhiteSpace_loop (charBuffer d) json in
      if byte_at (charBuffer d) p = NUL
        then Ret (None, this, SetError JSON_ERROR_OBJECT_MISMATCH None None d,
                  logged JSON_ERROR_OBJECT_MISMATCH None None lg)
      else if byte_at (charBuffer d) p = CHR ''}''
        then Ret (Some (p + 1), this, d, lg)
      else
        (case ParseElement_log n this p d lg of
           Ret (r, this1, d1, lg1) \<Rightarrow> JsonObject_while_log n this1 r d1 lg1
         | Fault f \<Rightarrow> Fault f
         | OutOfFuel \<Rightarrow> OutOfFuel))"
| "JsonObject_while_log 0 this json d lg = OutOfFuel"
| "JsonObject_while_log (Suc n) this json d lg =
     (case json of
        None \<Rightarrow> Fault NullDeref
      | Some p \<Rightarrow>
          if byte_at (charBuffer d) p = CHR '',''
          then
            (case ParseElement_log n this (p + 1) d lg of
               Ret (r, this1, d1, lg1) \<Rightarrow>
                 (case r of
                    None \<Rightarrow> Ret (None, this1, SetError JSON_ERROR_OBJECT_MISMATCH None None d1,
                                 logged JSON_ERROR_OBJECT_MISMATCH None None lg1)
                  | Some p1 \<Rightarrow> JsonObject_while_log n this1 (Some p1) d1 lg1)
             | Fault f \<Rightarrow> Fault f
             | OutOfFuel \<Rightarrow> OutOfFuel)
          else if byte_at (charBuffer d) p = CHR ''}''
            then Ret (Some (p + 1), this, d, lg)
          else Ret (None, this, SetError JSON_ERROR_OBJECT_MISMATCH None None d,
                    logged JSON_ERROR_OBJECT_MISMATCH None None lg))"
| "JsonArray_ParseDeep_log 0 this json d lg = OutOfFuel"
| "JsonArray_ParseDeep_log (Suc n) this json d lg =
     (let p = SkipWhiteSpace_loop (charBuffer d) json in
      if byte_at (charBuffer d) p = NUL
        then Ret (None, this, SetError JSON_ERROR_ARRAY_MISMATCH None None d,
                  logged JSON_ERROR_ARRAY_MISMATCH None None lg)
      else if byte_at (charBuffer d) p = CHR '']''
        then Ret (Some (p + 1), this, d, lg)
      else
        (case JsonNode_ParseDeep_log n this p d lg of
           Ret (r, this1, d1, lg1) \<Rightarrow>
             (case SkipWhiteSpace (charBuffer d1) r of
                None \<Rightarrow> Ret (None, this1, d1, lg1)
              | Some p1 \<Rightarrow> JsonArray_while_log n this1 p1 d1 lg1)
         | Fault f \<Rightarrow> Fault f
         | OutOfFuel \<Rightarrow> OutOfFuel))"
| "JsonArray_while_log 0 this json d lg = OutOfFuel"
| "JsonArray_while_log (Suc n) this json d lg =
     (if byte_at (charBuffer d) json = CHR '',''
      then
        (case JsonNode_ParseDeep_log n this (json + 1) d lg of
           Ret (r, this1, d1, lg1) \<Rightarrow>
             (case SkipWhiteSpace (charBuffer d1) r of
                None \<Rightarrow> Ret (None, this1, SetError JSON_ERROR_ARRAY_MISMATCH None None d1,
                             logged JSON_ERROR_ARRAY_MISMATCH None None lg1)
              | Some p1 \<Rightarrow>
                  if byte_at (charBuffer d1) p1 = NUL
                  then Ret (None, this1, SetError JSON_ERROR_ARRAY_MISMATCH None None d1,
                            logged JSON_ERROR_ARRAY_MISMATCH None None lg1)
                  else JsonArray_while_log n this1 p1 d1 lg1)
         | Fault f \<Rightarrow> Fault f
         | OutOfFuel \<Rightarrow> OutOfFuel)
      else if byte_at (charBuffer d) json = CHR '']''
        then Ret (Some (json + 1), this, d, lg)
      else Ret (None, this, SetError JSON_ERROR_ARRAY_MISMATCH None None d,
                logged JSON_ERROR_ARRAY_MISMATCH None None lg))"
  by pat_completeness auto
termination
  by (relation "measure (case_sum (case_sum (case_sum fst fst) (case_sum fst fst))
                                  (case_sum (case_sum fst fst) (case_sum fst fst)))")
     simp_all

text \<open>\<^verbatim>\<open>JsonDocument::Parse\<close> with the list of its calls of \<^verbatim>\<open>SetError\<close>.\<close>

definition Parse_fuel_log :: "nat \<Rightarrow> string option \<Rightarrow> nat option \<Rightarrow> JsonDocument
    \<Rightarrow> (JsonError \<times> JsonDocument \<times> ErrorLog) run" where
  "Parse_fuel_log n json len d =
     (let d1 = InitDocument ((DeleteChildren (docChildren d) d)\<lparr>docChildren := []\<rparr>) in
      case json of
        None \<Rightarrow>
          (let d2 = SetError JSON_ERROR_EMPTY_DOCUMENT None None d1
           in Ret (errorID d2, d2, logged JSON_ERROR_EMPTY_DOCUMENT None None []))
      | Some text \<Rightarrow>
          if byte_at (text @ [NUL]) 0 = NUL
          then (let d2 = SetError JSON_ERROR_EMPTY_DOCUMENT None None d1
                in Ret (errorID d2, d2, logged JSON_ERROR_EMPTY_DOCUMENT None None []))
          else
            (let l = (case len of None \<Rightarrow> strlen text | Some l \<Rightarrow> l) in
             if length text + 1 < l then Fault OutOfBounds
             else
               (let d2 = d1\<lparr>charBuffer := take l (text @ [NUL]) @ [NUL]\<rparr> in
                if byte_at (text @ [NUL]) (SkipWhiteSpace_loop (text @ [NUL]) 0) = NUL
                then (let d3 = SetError JSON_ERROR_EMPTY_DOCUMENT None None d2
                      in Ret (errorID d3, d3, logged JSON_ERROR_EMPTY_DOCUMENT None None []))
                else
                  (case JsonNode_ParseDeep_log n [] 0 d2 [] of
                     Ret (r, this, d3, lg) \<Rightarrow>
                       Ret (errorID d3, d3\<lparr>docChildren := this\<rparr>, lg)
                   | Fault f \<Rightarrow> Fault f
                   | OutOfFuel \<Rightarrow> OutOfFuel))))"

definition Parse_log :: "string option \<Rightarrow> nat option \<Rightarrow> JsonDocument
    \<Rightarrow> (JsonError \<times> JsonDocument \<times> ErrorLog) run" where
  "Parse_log json len d = Parse_fuel_log (Parse_budget json len) json len d"

text \<open>
  What the slot holds after the calls \<open>calls\<close> when it held \<open>s\<close> before, if the first error
  wins: \<open>s\<close> itself when it is an error, or when there was no call, and the arguments of the
  first call otherwise.  \<open>recorded d calls d'\<close> says that the slot of \<open>d'\<close> is what the slot of
  \<open>d\<close> becomes in this way, none of the calls being one with \<^verbatim>\<open>JSON_NO_ERROR\<close>.
\<close>

definition slot_after :: "JsonError \<times> string option \<times> string option \<Rightarrow> ErrorLog
    \<Rightarrow> JsonError \<times> string option \<times> string option" where
  "slot_after s calls =
     (if fst s \<noteq> JSON_NO_ERROR then s else case calls of [] \<Rightarrow> s | c # cs \<Rightarrow> c)"

definition recorded :: "JsonDocument \<Rightarrow> ErrorLog \<Rightarrow> JsonDocument \<Rightarrow> bool" where
  "recorded d calls d' =
     (list_all (\<lambda>c. fst c \<noteq> JSON_NO_ERROR) calls
      \<and> error_slot d' = slot_after (error_slot d) calls)"

subsection \<open>What a failed \<open>Parse\<close> leaves behind\<close>

text \<open>The number of nodes of a tree whose slot comes from the pool \<open>pl\<close>.\<close>

fun nodes_from :: "PoolId \<Rightarrow> JsonNode \<Rightarrow> nat"
  and nodes_from_list :: "PoolId \<Rightarrow> JsonNode list \<Rightarrow> nat" where
  "nodes_from pl (JsonNode k q cs) = (if q = pl then 1 else 0) + nodes_from_list pl cs"
| "nodes_from_list pl [] = 0"
| "nodes_from_list pl (c # cs) = nodes_from pl c + nodes_from_list pl cs"

text \<open>
  \<open>live d pl\<close> is the live-allocation count of the pool \<open>pl\<close>.  A routine that turns the child
  chain \<open>this\<close> into \<open>t\<close> and the Document \<open>d\<close> into \<open>d'\<close> is balanced when each pool's
  count has grown by the number of its nodes that the chain has gained.
\<close>

definition live :: "JsonDocument \<Rightarrow> PoolId \<Rightarrow> int" where
  "live d pl = CurrentAllocs (pool d pl)"

definition balanced :: "JsonDocument \<Rightarrow> JsonNode list \<Rightarrow> JsonDocument \<Rightarrow> JsonNode list \<Rightarrow> bool" where
  "balanced d this d' t =
     (\<forall>pl. live d' pl + int (nodes_from_list pl this) = live d pl + int (nodes_from_list pl t))"

text \<open>
  Every pool's live-allocation count is the number of its nodes that are linked in the
  Document's tree.
\<close>

definition accounted :: "JsonDocument \<Rightarrow> bool" where
  "accounted d =
     list_all (\<lambda>pl. live d pl = int (nodes_from_list pl (docChildren d)))
       [ObjectPool, ArrayPool, ElementPool, NumberPool, StringPool, ReservedPool]"

text \<open>
  The three tests of \<open>Parse\<close> that end in \<^verbatim>\<open>JSON_ERROR_EMPTY_DOCUMENT\<close>: a null pointer, an
  empty text, a text of white space only.
\<close>

definition empty_text :: "string option \<Rightarrow> bool" where
  "empty_text json =
     (case json of
        None \<Rightarrow> True
      | Some text \<Rightarrow>
          byte_at (text @ [NUL]) 0 = NUL
          \<or> byte_at (text @ [NUL]) (SkipWhiteSpace_loop (text @ [NUL]) 0) = NUL)"

text \<open>The Document as \<open>Parse\<close> hands it to the top-level \<^verbatim>\<open>ParseDeep\<close>.\<close>

definition Parse_prepare :: "string option \<Rightarrow> nat option \<Rightarrow> JsonDocument \<Rightarrow> JsonDocument" where
  "Parse_prepare json len d =
     (InitDocument ((DeleteChildren (docChildren d) d)\<lparr>docChildren := []\<rparr>))
       \<lparr>charBuffer :=
          (case json of
             None \<Rightarrow> []
           | Some text \<Rightarrow>
               take (case len of None \<Rightarrow> strlen text | Some l \<Rightarrow> l) (text @ [NUL]) @ [NUL])\<rparr>"

text \<open>
  The first round of the top-level loop identifies a value and that value's parse returns
  null.
\<close>

definition first_value_fails :: "nat \<Rightarrow> JsonDocument \<Rightarrow> bool" where
  "first_value_fails n d =
     (byte_at (charBuffer d) 0 \<noteq> NUL \<and>
      (case Identify d 0 None of
         (j, None, d1) \<Rightarrow> False
       | (j, Some nd, d1) \<Rightarrow>
           (case ParseDeep n nd j d1 of
              Ret (None, nd', d2) \<Rightarrow> True
            | Ret (Some q, nd', d2) \<Rightarrow> False
            | Fault f \<Rightarrow> False
            | OutOfFuel \<Rightarrow> False)))"

subsection \<open>The shape of the buffer\<close>

text \<open>
  A buffer is terminated when its last byte is NUL, as the one that \<open>Parse\<close> allocates is.
  Two Documents have buffers of the same shape when the lengths agree and termination carries
  over.
\<close>

definition terminated :: "char list \<Rightarrow> bool" where
  "terminated buf = (buf \<noteq> [] \<and> last buf = NUL)"

definition same_shape :: "JsonDocument \<Rightarrow> JsonDocument \<Rightarrow> bool" where
  "same_shape d d' =
     (length (charBuffer d') = length (charBuffer d)
      \<and> (terminated (charBuffer d) \<longrightarrow> terminated (charBuffer d')))"


section \<open>Auxiliary facts\<close>

subsection \<open>Fields, pools and white space\<close>

lemma pool_pool_update: "pool (pool_update p f d) q = (if q = p then f (pool d p) else pool d q)"
  by (cases p; cases q) simp_all

lemma pool_update_fields [simp]:
  "errorID (pool_update p f d) = errorID d"
  "errorStr1 (pool_update p f d) = errorStr1 d"
  "errorStr2 (pool_update p f d) = errorStr2 d"
  "charBuffer (pool_update p f d) = charBuffer d"
  "docChildren (pool_update p f d) = docChildren d"
  by (cases p; simp)+

lemma SetError_fields [simp]:
  "charBuffer (SetError e s1 s2 d) = charBuffer d"
  "docChildren (SetError e s1 s2 d) = docChildren d"
  "pool (SetError e s1 s2 d) q = pool d q"
  by (cases q; simp add: SetError_def)+

lemma DeleteNode_fields:
  "errorID (DeleteNode nd d) = errorID d \<and> errorStr1 (DeleteNode nd d) = errorStr1 d
   \<and> errorStr2 (DeleteNode nd d) = errorStr2 d \<and> charBuffer (DeleteNode nd d) = charBuffer d"
  "errorID (DeleteChildren cs d) = errorID d \<and> errorStr1 (DeleteChildren cs d) = errorStr1 d
   \<and> errorStr2 (DeleteChildren cs d) = errorStr2 d \<and> charBuffer (DeleteChildren cs d) = charBuffer d"
  by (induction nd d and cs d rule: DeleteNode_DeleteChildren.induct) simp_all

lemma skip_ge: "p \<le> SkipWhiteSpace_loop buf p"
  by (induction buf p rule: SkipWhiteSpace_loop.induct)
     (subst SkipWhiteSpace_loop.simps, auto)

lemma skip_stop: "IsUTF8Continuation (byte_at buf (SkipWhiteSpace_loop buf p)) \<or> \<not> isspace (byte_at buf (SkipWhiteSpace_loop buf p))"
  by (induction buf p rule: SkipWhiteSpace_loop.induct)
     (subst (1 2) SkipWhiteSpace_loop.simps, auto)

lemma skip_all: "p \<le> q \<Longrightarrow> q < SkipWhiteSpace_loop buf p \<Longrightarrow> isspace (byte_at buf q) \<and> \<not> IsUTF8Continuation (byte_at buf q)"
proof (induction buf p rule: SkipWhiteSpace_loop.induct)
  case (1 buf p)
  show ?case
  proof (cases "\<not> IsUTF8Continuation (byte_at buf p) \<and> isspace (byte_at buf p)")
    case True
    with 1 show ?thesis
      by (cases "q = p") (auto simp: SkipWhiteSpace_loop.simps[of buf p])
  next
    case False
    with 1 show ?thesis by (auto simp: SkipWhiteSpace_loop.simps[of buf p])
  qed
qed

lemma isspace_NUL [simp]: "\<not> isspace NUL" by (simp add: isspace_def)

lemma skip_bound: "p < length buf \<Longrightarrow> last buf = NUL \<Longrightarrow> SkipWhiteSpace_loop buf p < length buf"
proof (induction buf p rule: SkipWhiteSpace_loop.induct)
  case (1 buf p)
  show ?case
  proof (cases "\<not> IsUTF8Continuation (byte_at buf p) \<and> isspace (byte_at buf p)")
    case True
    have "buf \<noteq> []" using 1(2) by auto
    then have "p \<noteq> length buf - 1" using True 1(2,3) by (auto simp: byte_at_def last_conv_nth)
    with 1 True show ?thesis by (simp add: SkipWhiteSpace_loop.simps[of buf p])
  next
    case False
    with 1 show ?thesis by (auto simp: SkipWhiteSpace_loop.simps[of buf p])
  qed
qed

subsection \<open>One level of each parse routine\<close>

lemma Identify_state:
  "Identify d json nd0 = (j, nd, d1) \<Longrightarrow> d1 = d \<or> (\<exists>p. d1 = pool_update p Alloc d)"
  unfolding Identify_def Let_def
  by (simp only: split: if_splits) blast+

lemma JsonNode_ParseDeep_SucE:
  assumes "JsonNode_ParseDeep (Suc n) this json d = Ret (r, t, d')"
  obtains (eof) "byte_at (charBuffer d) json = NUL" "r = Some json" "t = this" "d' = d"
  | (none) j d1 where "byte_at (charBuffer d) json \<noteq> NUL" "Identify d json None = (j, None, d1)"
      "r = Some j" "t = this" "d' = d1"
  | (fail) j nd d1 nd' d2 where "byte_at (charBuffer d) json \<noteq> NUL"
      "Identify d json None = (j, Some nd, d1)"
      "ParseDeep n nd j d1 = Ret (None, nd', d2)" "r = None" "t = this"
      "d' = SetError JSON_ERROR_PARSING None None
              (DeleteNode nd' (pool_update (memPool nd') SetTracked d2))"
  | (step) j nd d1 q nd' d2 where "byte_at (charBuffer d) json \<noteq> NUL"
      "Identify d json None = (j, Some nd, d1)"
      "ParseDeep n nd j d1 = Ret (Some q, nd', d2)"
      "JsonNode_ParseDeep n (this @ [nd']) (SkipWhiteSpace_loop (charBuffer d2) q)
         (pool_update (memPool nd') SetTracked d2) = Ret (r, t, d')"
  using assms
  by (auto simp: SkipWhiteSpace_def InsertEndChild_def
           split: if_splits prod.splits option.splits run.splits)


lemma ParseDeep_SucE:
  assumes "ParseDeep (Suc n) node json d = Ret (r, t, d')"
  obtains (reserved) ty where "kind node = JsonReserved ty"
      "JsonReserved_ParseDeep node json d = (r, t, d')"
  | (number) v where "kind node = JsonNumber v" "JsonNumber_ParseDeep node json d = (r, t, d')"
  | (string) sp where "kind node = JsonString sp"
      "JsonString_ParseDeep node json d = Ret (r, t, d')"
  | (element) cs where "kind node = JsonElement"
      "JsonElement_ParseDeep n (children node) json d = Ret (r, cs, d')"
      "t = JsonNode (kind node) (memPool node) cs"
  | (object) cs where "kind node = JsonObject"
      "JsonObject_ParseDeep n (children node) json d = Ret (r, cs, d')"
      "t = JsonNode (kind node) (memPool node) cs"
  | (array) cs where "kind node = JsonArray"
      "JsonArray_ParseDeep n (children node) json d = Ret (r, cs, d')"
      "t = JsonNode (kind node) (memPool node) cs"
  using assms
  by (auto split: Kind.splits prod.splits run.splits)

lemma JsonElement_ParseDeep_SucE:
  assumes "JsonElement_ParseDeep (Suc n) this json d = Ret (r, t, d')"
  obtains (noquote) "byte_at (charBuffer d) json \<noteq> DQUOTE" "r = None" "t = this"
      "d' = SetError JSON_ERROR_PARSING_ELEMENT None None d"
  | (key_fail) this1 d1 where "byte_at (charBuffer d) json = DQUOTE"
      "JsonNode_ParseDeep n this json d = Ret (None, this1, d1)" "r = None" "t = this1"
      "d' = SetError JSON_ERROR_PARSING_ELEMENT None None d1"
  | (nocolon) q this1 d1 where "byte_at (charBuffer d) json = DQUOTE"
      "JsonNode_ParseDeep n this json d = Ret (Some q, this1, d1)"
      "byte_at (charBuffer d1) (SkipWhiteSpace_loop (charBuffer d1) q) \<noteq> CHR '':''"
      "r = None" "t = this1" "d' = SetError JSON_ERROR_PARSING_ELEMENT None None d1"
  | (value_fail) q this1 d1 this2 d2 where "byte_at (charBuffer d) json = DQUOTE"
      "JsonNode_ParseDeep n this json d = Ret (Some q, this1, d1)"
      "byte_at (charBuffer d1) (SkipWhiteSpace_loop (charBuffer d1) q) = CHR '':''"
      "JsonNode_ParseDeep n this1 (SkipWhiteSpace_loop (charBuffer d1) q + 1) d1
         = Ret (None, this2, d2)"
      "r = None" "t = this2" "d' = SetError JSON_ERROR_PARSING_ELEMENT None None d2"
  | (ok) q this1 d1 q2 where "byte_at (charBuffer d) json = DQUOTE"
      "JsonNode_ParseDeep n this json d = Ret (Some q, this1, d1)"
      "byte_at (charBuffer d1) (SkipWhiteSpace_loop (charBuffer d1) q) = CHR '':''"
      "JsonNode_ParseDeep n this1 (SkipWhiteSpace_loop (charBuffer d1) q + 1) d1
         = Ret (Some q2, t, d')"
      "r = Some (SkipWhiteSpace_loop (charBuffer d') q2)"
  using assms
  by (auto simp: SkipWhiteSpace_def split: if_splits prod.splits option.splits run.splits)

lemma ParseElement_SucE:
  assumes "ParseElement (Suc n) this json d = Ret (r, t, d')"
  obtains (fail) cs d1 where
      "JsonElement_ParseDeep n [] json (pool_update ElementPool Alloc d) = Ret (None, cs, d1)"
      "r = None" "t = this"
      "d' = SetError JSON_ERROR_PARSING_ELEMENT None None
             (DeleteNode (JsonNode JsonElement ElementPool cs)
                (pool_update ElementPool SetTracked d1))"
  | (ok) q cs d1 where
      "JsonElement_ParseDeep n [] json (pool_update ElementPool Alloc d) = Ret (Some q, cs, d1)"
      "r = Some (SkipWhiteSpace_loop (charBuffer d1) q)"
      "t = this @ [JsonNode JsonElement ElementPool cs]"
      "d' = pool_update ElementPool SetTracked d1"
  using assms
  by (auto simp: SkipWhiteSpace_def InsertEndChild_def CreatElement_def
           simp del: pool_update.simps DeleteNode.simps
           split: if_splits prod.splits option.splits run.splits)

lemma JsonObject_while_SucE:
  assumes "JsonObject_while (Suc n) this json d = Ret (r, t, d')"
  obtains (elem_fail) p this1 d1 where "json = Some p" "byte_at (charBuffer d) p = CHR '',''"
      "ParseElement n this (p + 1) d = Ret (None, this1, d1)" "r = None" "t = this1"
      "d' = SetError JSON_ERROR_OBJECT_MISMATCH None None d1"
  | (again) p p1 this1 d1 where "json = Some p" "byte_at (charBuffer d) p = CHR '',''"
      "ParseElement n this (p + 1) d = Ret (Some p1, this1, d1)"
      "JsonObject_while n this1 (Some p1) d1 = Ret (r, t, d')"
  | (close) p where "json = Some p" "byte_at (charBuffer d) p = CHR ''}''"
      "r = Some (p + 1)" "t = this" "d' = d"
  | (bad) p where "json = Some p" "byte_at (charBuffer d) p \<noteq> CHR '',''"
      "byte_at (charBuffer d) p \<noteq> CHR ''}''" "r = None" "t = this"
      "d' = SetError JSON_ERROR_OBJECT_MISMATCH None None d"
  using assms
  by (auto split: if_splits prod.splits option.splits run.splits)

lemma JsonArray_while_SucE:
  assumes "JsonArray_while (Suc n) this json d = Ret (r, t, d')"
  obtains (run_fail) this1 d1 where "byte_at (charBuffer d) json = CHR '',''"
      "JsonNode_ParseDeep n this (json + 1) d = Ret (None, this1, d1)" "r = None" "t = this1"
      "d' = SetError JSON_ERROR_ARRAY_MISMATCH None None d1"
  | (eof) q this1 d1 where "byte_at (charBuffer d) json = CHR '',''"
      "JsonNode_ParseDeep n this (json + 1) d = Ret (Some q, this1, d1)"
      "byte_at (charBuffer d1) (SkipWhiteSpace_loop (charBuffer d1) q) = NUL"
      "r = None" "t = this1" "d' = SetError JSON_ERROR_ARRAY_MISMATCH None None d1"
  | (again) q this1 d1 where "byte_at (charBuffer d) json = CHR '',''"
      "JsonNode_ParseDeep n this (json + 1) d = Ret (Some q, this1, d1)"
      "byte_at (charBuffer d1) (SkipWhiteSpace_loop (charBuffer d1) q) \<noteq> NUL"
      "JsonArray_while n this1 (SkipWhiteSpace_loop (charBuffer d1) q) d1 = Ret (r, t, d')"
  | (close) "byte_at (charBuffer d) json = CHR '']''" "r = Some (json + 1)" "t = this" "d' = d"
  | (bad) "byte_at (charBuffer d) json \<noteq> CHR '',''" "byte_at (charBuffer d) json \<noteq> CHR '']''"
      "r = None" "t = this" "d' = SetError JSON_ERROR_ARRAY_MISMATCH None None d"
  using assms
  by (auto simp: SkipWhiteSpace_def split: if_splits prod.splits option.splits run.splits)

lemma JsonString_ParseDeep_cases:
  assumes "JsonString_ParseDeep node json d = Ret (r, t, d')"
  obtains (ok) ptr where "JsonString_scan (charBuffer d) json = Ret ptr"
      "byte_at (charBuffer d) ptr \<noteq> NUL" "r = Some (ptr + 1)"
      "t = JsonNode (JsonString (Some (json, ptr))) (memPool node) (children node)"
      "d' = d\<lparr>charBuffer := (charBuffer d)[ptr := NUL]\<rparr>"
  | (fail) ptr where "JsonString_scan (charBuffer d) json = Ret ptr"
      "byte_at (charBuffer d) ptr = NUL" "r = None" "t = node"
      "d' = SetError JSON_ERROR_PARSING_STRING None None d"
  using assms unfolding JsonString_ParseDeep_def
  by (auto split: run.splits if_splits)


lemma JsonObject_ParseDeep_SucE:
  assumes "JsonObject_ParseDeep (Suc n) this json d = Ret (r, t, d')"
  obtains (eof) "byte_at (charBuffer d) (SkipWhiteSpace_loop (charBuffer d) json) = NUL"
      "r = None" "t = this" "d' = SetError JSON_ERROR_OBJECT_MISMATCH None None d"
  | (empty) "byte_at (charBuffer d) (SkipWhiteSpace_loop (charBuffer d) json) = CHR ''}''"
      "r = Some (SkipWhiteSpace_loop (charBuffer d) json + 1)" "t = this" "d' = d"
  | (elems) r1 this1 d1 where
      "byte_at (charBuffer d) (SkipWhiteSpace_loop (charBuffer d) json) \<noteq> NUL"
      "byte_at (charBuffer d) (SkipWhiteSpace_loop (charBuffer d) json) \<noteq> CHR ''}''"
      "ParseElement n this (SkipWhiteSpace_loop (charBuffer d) json) d = Ret (r1, this1, d1)"
      "JsonObject_while n this1 r1 d1 = Ret (r, t, d')"
proof -
  let ?p = "SkipWhiteSpace_loop (charBuffer d) json"
  show ?thesis
  proof (cases "byte_at (charBuffer d) ?p = NUL")
    case True
    with assms show ?thesis by (intro eof) (auto simp: Let_def)
  next
    case nz: False
    show ?thesis
    proof (cases "byte_at (charBuffer d) ?p = CHR ''}''")
      case True
      with assms nz show ?thesis by (intro empty) (auto simp: Let_def)
    next
      case nc: False
      from assms nz nc obtain r1 this1 d1 where
        "ParseElement n this ?p d = Ret (r1, this1, d1)"
        "JsonObject_while n this1 r1 d1 = Ret (r, t, d')"
        by (auto simp: Let_def split: run.splits)
      then show ?thesis using nz nc by (intro elems)
    qed
  qed
qed

lemma JsonArray_ParseDeep_SucE:
  assumes "JsonArray_ParseDeep (Suc n) this json d = Ret (r, t, d')"
  obtains (eof) "byte_at (charBuffer d) (SkipWhiteSpace_loop (charBuffer d) json) = NUL"
      "r = None" "t = this" "d' = SetError JSON_ERROR_ARRAY_MISMATCH None None d"
  | (empty) "byte_at (charBuffer d) (SkipWhiteSpace_loop (charBuffer d) json) = CHR '']''"
      "r = Some (SkipWhiteSpace_loop (charBuffer d) json + 1)" "t = this" "d' = d"
  | (run_fail) "byte_at (charBuffer d) (SkipWhiteSpace_loop (charBuffer d) json) \<noteq> NUL"
      "byte_at (charBuffer d) (SkipWhiteSpace_loop (charBuffer d) json) \<noteq> CHR '']''"
      "JsonNode_ParseDeep n this (SkipWhiteSpace_loop (charBuffer d) json) d = Ret (None, t, d')"
      "r = None"
  | (run) q this1 d1 where
      "byte_at (charBuffer d) (SkipWhiteSpace_loop (charBuffer d) json) \<noteq> NUL"
      "byte_at (charBuffer d) (SkipWhiteSpace_loop (charBuffer d) json) \<noteq> CHR '']''"
      "JsonNode_ParseDeep n this (SkipWhiteSpace_loop (charBuffer d) json) d
         = Ret (Some q, this1, d1)"
      "JsonArray_while n this1 (SkipWhiteSpace_loop (charBuffer d1) q) d1 = Ret (r, t, d')"
proof -
  let ?p = "SkipWhiteSpace_loop (charBuffer d) json"
  show ?thesis
  proof (cases "byte_at (charBuffer d) ?p = NUL")
    case True
    with assms show ?thesis by (intro eof) (auto simp: Let_def)
  next
    case nz: False
    show ?thesis
    proof (cases "byte_at (charBuffer d) ?p = CHR '']''")
      case True
      with assms nz show ?thesis by (intro empty) (auto simp: Let_def)
    next
      case nc: False
      from assms nz nc obtain r1 this1 d1 where
        lp: "JsonNode_ParseDeep n this ?p d = Ret (r1, this1, d1)"
        by (auto simp: Let_def split: run.splits)
      show ?thesis
      proof (cases r1)
        case None
        with assms nz nc lp show ?thesis
          by (intro run_fail) (auto simp: Let_def SkipWhiteSpace_def)
      next
        case (Some q)
        with assms nz nc lp show ?thesis
          by (intro run[of q this1 d1]) (auto simp: Let_def SkipWhiteSpace_def)
      qed
    qed
  qed
qed

lemma JsonReserved_ParseDeep_cases:
  assumes "JsonReserved_ParseDeep node json d = (r, t, d')"
  obtains (ok) ty lit k where "r = Some (json + k)" "0 < k" "length lit = k"
      "take k (drop json (charBuffer d)) = lit" "NUL \<notin> set lit"
      "t = JsonNode (JsonReserved ty) (memPool node) (children node)" "d' = d"
  | (fail) "r = None" "t = node" "d' = SetError JSON_ERROR_PARSING_RESERVED None None d"
proof (cases "take 4 (drop json (charBuffer d)) = ''null''")
  case True
  with assms show ?thesis
    by (intro ok[of 4 "''null''"]) (auto simp: JsonReserved_ParseDeep_def)
next
  case n: False
  show ?thesis
  proof (cases "take 4 (drop json (charBuffer d)) = ''true''")
    case True
    with assms n show ?thesis
      by (intro ok[of 4 "''true''"]) (auto simp: JsonReserved_ParseDeep_def)
  next
    case t: False
    show ?thesis
    proof (cases "take 5 (drop json (charBuffer d)) = ''false''")
      case True
      with assms n t show ?thesis
        by (intro ok[of 5 "''false''"]) (auto simp: JsonReserved_ParseDeep_def)
    next
      case False
      with assms n t show ?thesis
        by (intro fail) (auto simp: JsonReserved_ParseDeep_def)
    qed
  qed
qed

lemma JsonNumber_ParseDeep_cases:
  assumes "JsonNumber_ParseDeep node json d = (r, t, d')"
  obtains (ok) k where "k = strtod_len (c_str (charBuffer d) (SkipWhiteSpace_loop (charBuffer d) json))"
      "k \<noteq> 0" "r = Some (SkipWhiteSpace_loop (charBuffer d) json + k)"
      "t = JsonNode (JsonNumber (take k (c_str (charBuffer d) (SkipWhiteSpace_loop (charBuffer d) json))))
             (memPool node) (children node)" "d' = d"
  | (fail) "strtod_len (c_str (charBuffer d) (SkipWhiteSpace_loop (charBuffer d) json)) = 0"
      "r = None" "t = node" "d' = SetError JSON_ERROR_OBJECT_MISMATCH None None d"
proof (cases "strtod_len (c_str (charBuffer d) (SkipWhiteSpace_loop (charBuffer d) json)) = 0")
  case True
  with assms show ?thesis by (intro fail) (auto simp: JsonNumber_ParseDeep_def)
next
  case False
  with assms show ?thesis by (intro ok[OF refl]) (auto simp: JsonNumber_ParseDeep_def Let_def)
qed


subsection \<open>What a whole run preserves\<close>

text \<open>
  A reflexive and transitive relation between Document states that every primitive step
  (recording an error, updating a pool, writing a NUL into the buffer) respects is respected by
  every parse routine.
\<close>

lemma parse_rel:
  assumes R_refl: "\<And>d. R d d"
    and R_trans: "\<And>a b c. R a b \<Longrightarrow> R b c \<Longrightarrow> R a c"
    and R_err: "\<And>e d. R d (SetError e None None d)"
    and R_pool: "\<And>p f d. R d (pool_update p f d)"
    and R_buf: "\<And>d i. R d (d\<lparr>charBuffer := (charBuffer d)[i := NUL]\<rparr>)"
  shows "(\<forall>this json d r t d'. JsonNode_ParseDeep n this json d = Ret (r, t, d') \<longrightarrow> R d d')
       \<and> (\<forall>node json d r t d'. ParseDeep n node json d = Ret (r, t, d') \<longrightarrow> R d d')
       \<and> (\<forall>this json d r t d'. JsonElement_ParseDeep n this json d = Ret (r, t, d') \<longrightarrow> R d d')
       \<and> (\<forall>this json d r t d'. ParseElement n this json d = Ret (r, t, d') \<longrightarrow> R d d')
       \<and> (\<forall>this json d r t d'. JsonObject_ParseDeep n this json d = Ret (r, t, d') \<longrightarrow> R d d')
       \<and> (\<forall>this json d r t d'. JsonObject_while n this json d = Ret (r, t, d') \<longrightarrow> R d d')
       \<and> (\<forall>this json d r t d'. JsonArray_ParseDeep n this json d = Ret (r, t, d') \<longrightarrow> R d d')
       \<and> (\<forall>this json d r t d'. JsonArray_while n this json d = Ret (r, t, d') \<longrightarrow> R d d')"
proof (induction n)
  case 0
  show ?case by simp
next
  case (Suc n)
  have s_pool: "\<And>a b p f. R a b \<Longrightarrow> R a (pool_update p f b)"
    using R_trans R_pool by blast
  have s_err: "\<And>a b e. R a b \<Longrightarrow> R a (SetError e None None b)"
    using R_trans R_err by blast
  have s_buf: "\<And>a b i. R a b \<Longrightarrow> R a (b\<lparr>charBuffer := (charBuffer b)[i := NUL]\<rparr>)"
    using R_trans R_buf by blast
  have del: "R a b \<longrightarrow> R a (DeleteNode nd b)" "R a b \<longrightarrow> R a (DeleteChildren cs b)" for a nd cs b
    by (induction nd b and cs b rule: DeleteNode_DeleteChildren.induct)
       (auto intro: s_pool simp del: pool_update.simps)
  have s_del: "\<And>a b nd. R a b \<Longrightarrow> R a (DeleteNode nd b)" using del by blast
  have s_id: "\<And>a b json j nd d1. R a b \<Longrightarrow> Identify b json None = (j, nd, d1) \<Longrightarrow> R a d1"
    using Identify_state s_pool by blast
  have s_res: "\<And>a d node json r t d'. R a d \<Longrightarrow> JsonReserved_ParseDeep node json d = (r, t, d') \<Longrightarrow> R a d'"
    by (erule JsonReserved_ParseDeep_cases) (auto intro: s_err)
  have s_num: "\<And>a d node json r t d'. R a d \<Longrightarrow> JsonNumber_ParseDeep node json d = (r, t, d') \<Longrightarrow> R a d'"
    by (erule JsonNumber_ParseDeep_cases) (auto intro: s_err)
  have s_str: "\<And>a d node json r t d'. R a d \<Longrightarrow> JsonString_ParseDeep node json d = Ret (r, t, d') \<Longrightarrow> R a d'"
    by (erule JsonString_ParseDeep_cases) (auto intro: s_err s_buf)
  from Suc.IH have
    IH1: "\<And>this json d r t d'. JsonNode_ParseDeep n this json d = Ret (r, t, d') \<Longrightarrow> R d d'" and
    IH2: "\<And>node json d r t d'. ParseDeep n node json d = Ret (r, t, d') \<Longrightarrow> R d d'" and
    IH3: "\<And>this json d r t d'. JsonElement_ParseDeep n this json d = Ret (r, t, d') \<Longrightarrow> R d d'" and
    IH4: "\<And>this json d r t d'. ParseElement n this json d = Ret (r, t, d') \<Longrightarrow> R d d'" and
    IH5: "\<And>this json d r t d'. JsonObject_ParseDeep n this json d = Ret (r, t, d') \<Longrightarrow> R d d'" and
    IH6: "\<And>this json d r t d'. JsonObject_while n this json d = Ret (r, t, d') \<Longrightarrow> R d d'" and
    IH7: "\<And>this json d r t d'. JsonArray_ParseDeep n this json d = Ret (r, t, d') \<Longrightarrow> R d d'" and
    IH8: "\<And>this json d r t d'. JsonArray_while n this json d = Ret (r, t, d') \<Longrightarrow> R d d'"
    by simp_all
  have L: "\<And>a this json d r t d'. R a d \<Longrightarrow> JsonNode_ParseDeep n this json d = Ret (r, t, d') \<Longrightarrow> R a d'"
    using IH1 R_trans by blast
  have D: "\<And>a node json d r t d'. R a d \<Longrightarrow> ParseDeep n node json d = Ret (r, t, d') \<Longrightarrow> R a d'"
    using IH2 R_trans by blast
  have E: "\<And>a this json d r t d'. R a d \<Longrightarrow> JsonElement_ParseDeep n this json d = Ret (r, t, d') \<Longrightarrow> R a d'"
    using IH3 R_trans by blast
  have PE: "\<And>a this json d r t d'. R a d \<Longrightarrow> ParseElement n this json d = Ret (r, t, d') \<Longrightarrow> R a d'"
    using IH4 R_trans by blast
  have OB: "\<And>a this json d r t d'. R a d \<Longrightarrow> JsonObject_ParseDeep n this json d = Ret (r, t, d') \<Longrightarrow> R a d'"
    using IH5 R_trans by blast
  have OW: "\<And>a this json d r t d'. R a d \<Longrightarrow> JsonObject_while n this json d = Ret (r, t, d') \<Longrightarrow> R a d'"
    using IH6 R_trans by blast
  have AR: "\<And>a this json d r t d'. R a d \<Longrightarrow> JsonArray_ParseDeep n this json d = Ret (r, t, d') \<Longrightarrow> R a d'"
    using IH7 R_trans by blast
  have AW: "\<And>a this json d r t d'. R a d \<Longrightarrow> JsonArray_while n this json d = Ret (r, t, d') \<Longrightarrow> R a d'"
    using IH8 R_trans by blast
  have c1: "R d d'" if "JsonNode_ParseDeep (Suc n) this json d = Ret (r, t, d')" for this json d r t d'
    using that
  proof (cases rule: JsonNode_ParseDeep_SucE)
    case eof
    then show ?thesis by (simp add: R_refl)
  next
    case (none j d1)
    then show ?thesis using s_id[OF R_refl] by blast
  next
    case (fail j nd d1 nd' d2)
    have "R d d1" by (rule s_id[OF R_refl fail(2)])
    then have "R d d2" by (rule D[OF _ fail(3)])
    then show ?thesis unfolding fail(6) by (intro s_err s_del s_pool)
  next
    case (step j nd d1 q nd' d2)
    have "R d d1" by (rule s_id[OF R_refl step(2)])
    then have "R d d2" by (rule D[OF _ step(3)])
    then have "R d (pool_update (memPool nd') SetTracked d2)" by (rule s_pool)
    then show ?thesis by (rule L[OF _ step(4)])
  qed
  have c2: "R d d'" if "ParseDeep (Suc n) node json d = Ret (r, t, d')" for node json d r t d'
    using that
  proof (cases rule: ParseDeep_SucE)
    case (reserved ty)
    then show ?thesis using s_res[OF R_refl] by blast
  next
    case (number v)
    then show ?thesis using s_num[OF R_refl] by blast
  next
    case (string sp)
    then show ?thesis using s_str[OF R_refl] by blast
  next
    case (element cs)
    then show ?thesis using IH3 by blast
  next
    case (object cs)
    then show ?thesis using IH5 by blast
  next
    case (array cs)
    then show ?thesis using IH7 by blast
  qed
  have c3: "R d d'" if "JsonElement_ParseDeep (Suc n) this json d = Ret (r, t, d')" for this json d r t d'
    using that
  proof (cases rule: JsonElement_ParseDeep_SucE)
    case noquote
    then show ?thesis by (simp add: R_err)
  next
    case (key_fail this1 d1)
    have "R d d1" by (rule IH1[OF key_fail(2)])
    then show ?thesis unfolding key_fail(5) by (rule s_err)
  next
    case (nocolon q this1 d1)
    have "R d d1" by (rule IH1[OF nocolon(2)])
    then show ?thesis unfolding nocolon(6) by (rule s_err)
  next
    case (value_fail q this1 d1 this2 d2)
    have "R d d1" by (rule IH1[OF value_fail(2)])
    then have "R d d2" by (rule L[OF _ value_fail(4)])
    then show ?thesis unfolding value_fail(7) by (rule s_err)
  next
    case (ok q this1 d1 q2)
    have "R d d1" by (rule IH1[OF ok(2)])
    then show ?thesis by (rule L[OF _ ok(4)])
  qed
  have c4: "R d d'" if "ParseElement (Suc n) this json d = Ret (r, t, d')" for this json d r t d'
    using that
  proof (cases rule: ParseElement_SucE)
    case (fail cs d1)
    have "R d (pool_update ElementPool Alloc d)" by (rule R_pool)
    then have "R d d1" by (rule E[OF _ fail(1)])
    then show ?thesis unfolding fail(4) by (intro s_err s_del s_pool)
  next
    case (ok q cs d1)
    have "R d (pool_update ElementPool Alloc d)" by (rule R_pool)
    then have "R d d1" by (rule E[OF _ ok(1)])
    then show ?thesis unfolding ok(4) by (rule s_pool)
  qed
  have c5: "R d d'" if "JsonObject_ParseDeep (Suc n) this json d = Ret (r, t, d')" for this json d r t d'
    using that
  proof (cases rule: JsonObject_ParseDeep_SucE)
    case eof
    then show ?thesis by (simp add: R_err)
  next
    case empty
    then show ?thesis by (simp add: R_refl)
  next
    case (elems r1 this1 d1)
    have "R d d1" by (rule IH4[OF elems(3)])
    then show ?thesis by (rule OW[OF _ elems(4)])
  qed
  have c6: "R d d'" if "JsonObject_while (Suc n) this json d = Ret (r, t, d')" for this json d r t d'
    using that
  proof (cases rule: JsonObject_while_SucE)
    case (elem_fail p this1 d1)
    have "R d d1" by (rule IH4[OF elem_fail(3)])
    then show ?thesis unfolding elem_fail(6) by (rule s_err)
  next
    case (again p p1 this1 d1)
    have "R d d1" by (rule IH4[OF again(3)])
    then show ?thesis by (rule OW[OF _ again(4)])
  next
    case (close p)
    then show ?thesis by (simp add: R_refl)
  next
    case (bad p)
    then show ?thesis by (simp add: R_err)
  qed
  have c7: "R d d'" if "JsonArray_ParseDeep (Suc n) this json d = Ret (r, t, d')" for this json d r t d'
    using that
  proof (cases rule: JsonArray_ParseDeep_SucE)
    case eof
    then show ?thesis by (simp add: R_err)
  next
    case empty
    then show ?thesis by (simp add: R_refl)
  next
    case run_fail
    then show ?thesis using IH1 by blast
  next
    case (run q this1 d1)
    have "R d d1" by (rule IH1[OF run(3)])
    then show ?thesis by (rule AW[OF _ run(4)])
  qed
  have c8: "R d d'" if "JsonArray_while (Suc n) this json d = Ret (r, t, d')" for this json d r t d'
    using that
  proof (cases rule: JsonArray_while_SucE)
    case (run_fail this1 d1)
    have "R d d1" by (rule IH1[OF run_fail(2)])
    then show ?thesis unfolding run_fail(5) by (rule s_err)
  next
    case (eof q this1 d1)
    have "R d d1" by (rule IH1[OF eof(2)])
    then show ?thesis unfolding eof(6) by (rule s_err)
  next
    case (again q this1 d1)
    have "R d d1" by (rule IH1[OF again(2)])
    then show ?thesis by (rule AW[OF _ again(4)])
  next
    case close
    then show ?thesis by (simp add: R_refl)
  next
    case bad
    then show ?thesis by (simp add: R_err)
  qed
  show ?case
    using c1 c2 c3 c4 c5 c6 c7 c8 by (intro conjI allI impI)
qed

lemma keeps_error_parse:
  "(\<forall>this json d r t d'. JsonNode_ParseDeep n this json d = Ret (r, t, d') \<longrightarrow> keeps_error d d')
       \<and> (\<forall>node json d r t d'. ParseDeep n node json d = Ret (r, t, d') \<longrightarrow> keeps_error d d')
       \<and> (\<forall>this json d r t d'. JsonElement_ParseDeep n this json d = Ret (r, t, d') \<longrightarrow> keeps_error d d')
       \<and> (\<forall>this json d r t d'. ParseElement n this json d = Ret (r, t, d') \<longrightarrow> keeps_error d d')
       \<and> (\<forall>this json d r t d'. JsonObject_ParseDeep n this json d = Ret (r, t, d') \<longrightarrow> keeps_error d d')
       \<and> (\<forall>this json d r t d'. JsonObject_while n this json d = Ret (r, t, d') \<longrightarrow> keeps_error d d')
       \<and> (\<forall>this json d r t d'. JsonArray_ParseDeep n this json d = Ret (r, t, d') \<longrightarrow> keeps_error d d')
       \<and> (\<forall>this json d r t d'. JsonArray_while n this json d = Ret (r, t, d') \<longrightarrow> keeps_error d d')"
  by (rule parse_rel) (auto simp: keeps_error_def error_slot_def SetError_def)

lemma Parse_fuel_status: "Parse_fuel n text len d0 = Ret (e1, d1) \<Longrightarrow> e1 = errorID d1"
  unfolding Parse_fuel_def Let_def
  by (simp only: split: option.splits if_splits run.splits prod.splits) auto

subsection \<open>Pool accounting\<close>

lemma pool_charBuffer_update [simp]: "pool (d\<lparr>charBuffer := b\<rparr>) pl = pool d pl"
  by (cases pl) simp_all

lemma pool_docChildren_update [simp]: "pool (d\<lparr>docChildren := b\<rparr>) pl = pool d pl"
  by (cases pl) simp_all

lemma pool_InitDocument [simp]: "pool (InitDocument d) pl = pool d pl"
  by (cases pl) (simp_all add: InitDocument_def)

lemma live_pool_update:
  "live (pool_update q Alloc d) pl = live d pl + (if pl = q then 1 else 0)"
  "live (pool_update q Free d) pl = live d pl - (if pl = q then 1 else 0)"
  "live (pool_update q SetTracked d) pl = live d pl"
  by (simp_all add: live_def CurrentAllocs_def pool_pool_update Alloc_def Free_def SetTracked_def Let_def)

lemma live_SetError [simp]: "live (SetError e s1 s2 d) pl = live d pl"
  by (simp add: live_def)

lemma live_charBuffer_update [simp]: "live (d\<lparr>charBuffer := b\<rparr>) pl = live d pl"
  by (simp add: live_def)

lemma nodes_from_node: "nodes_from pl nd = (if memPool nd = pl then 1 else 0) + nodes_from_list pl (children nd)"
  by (cases nd) simp

lemma balancedD: "balanced d this d' t \<Longrightarrow> live d' pl + int (nodes_from_list pl this) = live d pl + int (nodes_from_list pl t)"
  by (simp add: balanced_def)


lemma live_DeleteNode:
  "live (DeleteNode nd d) pl = live d pl - int (nodes_from pl nd)"
  "live (DeleteChildren cs d) pl = live d pl - int (nodes_from_list pl cs)"
  by (induction nd d and cs d rule: DeleteNode_DeleteChildren.induct)
     (simp_all add: live_pool_update del: pool_update.simps)

lemma nodes_from_list_append [simp]:
  "nodes_from_list pl (xs @ ys) = nodes_from_list pl xs + nodes_from_list pl ys"
  by (induction xs) simp_all

lemma nodes_from_rebuild [simp]:
  "nodes_from pl (JsonNode k (memPool nd) (children nd)) = nodes_from pl nd"
  by (cases nd) simp

lemma Identify_live:
  "Identify d json None = (j, Some nd, d1) \<Longrightarrow> live d1 pl = live d pl + int (nodes_from pl nd)"
  "Identify d json None = (j, None, d1) \<Longrightarrow> d1 = d"
  unfolding Identify_def Let_def
  by (simp_all only: split: if_splits) (auto simp: live_pool_update simp del: pool_update.simps)


lemma parse_balanced:
  "(\<forall>this json d r t d'. JsonNode_ParseDeep n this json d = Ret (r, t, d') \<longrightarrow> balanced d this d' t)
 \<and> (\<forall>node json d r t d'. ParseDeep n node json d = Ret (r, t, d') \<longrightarrow> balanced d [node] d' [t])
 \<and> (\<forall>this json d r t d'. JsonElement_ParseDeep n this json d = Ret (r, t, d') \<longrightarrow> balanced d this d' t)
 \<and> (\<forall>this json d r t d'. ParseElement n this json d = Ret (r, t, d') \<longrightarrow> balanced d this d' t)
 \<and> (\<forall>this json d r t d'. JsonObject_ParseDeep n this json d = Ret (r, t, d') \<longrightarrow> balanced d this d' t)
 \<and> (\<forall>this json d r t d'. JsonObject_while n this json d = Ret (r, t, d') \<longrightarrow> balanced d this d' t)
 \<and> (\<forall>this json d r t d'. JsonArray_ParseDeep n this json d = Ret (r, t, d') \<longrightarrow> balanced d this d' t)
 \<and> (\<forall>this json d r t d'. JsonArray_while n this json d = Ret (r, t, d') \<longrightarrow> balanced d this d' t)"
proof (induction n)
  case 0
  show ?case by simp
next
  case (Suc n)
  from Suc.IH have
    L: "\<And>this json d r t d' pl. JsonNode_ParseDeep n this json d = Ret (r, t, d') \<Longrightarrow>
      live d' pl + int (nodes_from_list pl this) = live d pl + int (nodes_from_list pl t)" and
    D: "\<And>node json d r t d' pl. ParseDeep n node json d = Ret (r, t, d') \<Longrightarrow>
      live d' pl + int (nodes_from pl node) = live d pl + int (nodes_from pl t)" and
    E: "\<And>this json d r t d' pl. JsonElement_ParseDeep n this json d = Ret (r, t, d') \<Longrightarrow>
      live d' pl + int (nodes_from_list pl this) = live d pl + int (nodes_from_list pl t)" and
    PE: "\<And>this json d r t d' pl. ParseElement n this json d = Ret (r, t, d') \<Longrightarrow>
      live d' pl + int (nodes_from_list pl this) = live d pl + int (nodes_from_list pl t)" and
    OB: "\<And>this json d r t d' pl. JsonObject_ParseDeep n this json d = Ret (r, t, d') \<Longrightarrow>
      live d' pl + int (nodes_from_list pl this) = live d pl + int (nodes_from_list pl t)" and
    OW: "\<And>this json d r t d' pl. JsonObject_while n this json d = Ret (r, t, d') \<Longrightarrow>
      live d' pl + int (nodes_from_list pl this) = live d pl + int (nodes_from_list pl t)" and
    AR: "\<And>this json d r t d' pl. JsonArray_ParseDeep n this json d = Ret (r, t, d') \<Longrightarrow>
      live d' pl + int (nodes_from_list pl this) = live d pl + int (nodes_from_list pl t)" and
    AW: "\<And>this json d r t d' pl. JsonArray_while n this json d = Ret (r, t, d') \<Longrightarrow>
      live d' pl + int (nodes_from_list pl this) = live d pl + int (nodes_from_list pl t)"
    by (simp_all add: balanced_def)
  have c1: "balanced d this d' t" if "JsonNode_ParseDeep (Suc n) this json d = Ret (r, t, d')"
    for this json d r t d'
    using that
  proof (cases rule: JsonNode_ParseDeep_SucE)
    case eof
    then show ?thesis by (simp add: balanced_def)
  next
    case (none j d1)
    then show ?thesis using Identify_live(2)[OF none(2)] by (simp add: balanced_def)
  next
    case (fail j nd d1 nd' d2)
    show ?thesis unfolding balanced_def
    proof
      fix pl
      show "live d' pl + int (nodes_from_list pl this) = live d pl + int (nodes_from_list pl t)"
        using Identify_live(1)[OF fail(2), of pl] D[OF fail(3), of pl] fail(4,5,6)
        by (simp add: live_DeleteNode live_pool_update del: pool_update.simps DeleteNode.simps)
    qed
  next
    case (step j nd d1 q nd' d2)
    show ?thesis unfolding balanced_def
    proof
      fix pl
      show "live d' pl + int (nodes_from_list pl this) = live d pl + int (nodes_from_list pl t)"
        using Identify_live(1)[OF step(2), of pl] D[OF step(3), of pl] L[OF step(4), of pl]
        by (simp add: live_pool_update del: pool_update.simps)
    qed
  qed
  have c2: "balanced d [node] d' [t]" if "ParseDeep (Suc n) node json d = Ret (r, t, d')"
    for node json d r t d'
    using that
  proof (cases rule: ParseDeep_SucE)
    case (reserved ty)
    from reserved(2) show ?thesis
      by (cases rule: JsonReserved_ParseDeep_cases) (simp_all add: balanced_def nodes_from_node[of _ node])
  next
    case (number v)
    from number(2) show ?thesis
      by (cases rule: JsonNumber_ParseDeep_cases) (simp_all add: balanced_def nodes_from_node[of _ node])
  next
    case (string sp)
    from string(2) show ?thesis
      by (cases rule: JsonString_ParseDeep_cases) (simp_all add: balanced_def nodes_from_node[of _ node])
  next
    case (element cs)
    show ?thesis unfolding balanced_def
    proof
      fix pl
      show "live d' pl + int (nodes_from_list pl [node]) = live d pl + int (nodes_from_list pl [t])"
        using E[OF element(2), of pl] element(3) by (simp add: nodes_from_node[of pl node])
    qed
  next
    case (object cs)
    show ?thesis unfolding balanced_def
    proof
      fix pl
      show "live d' pl + int (nodes_from_list pl [node]) = live d pl + int (nodes_from_list pl [t])"
        using OB[OF object(2), of pl] object(3) by (simp add: nodes_from_node[of pl node])
    qed
  next
    case (array cs)
    show ?thesis unfolding balanced_def
    proof
      fix pl
      show "live d' pl + int (nodes_from_list pl [node]) = live d pl + int (nodes_from_list pl [t])"
        using AR[OF array(2), of pl] array(3) by (simp add: nodes_from_node[of pl node])
    qed
  qed
  have c3: "balanced d this d' t" if "JsonElement_ParseDeep (Suc n) this json d = Ret (r, t, d')"
    for this json d r t d'
    using that
  proof (cases rule: JsonElement_ParseDeep_SucE)
    case noquote
    then show ?thesis by (simp add: balanced_def)
  next
    case (key_fail this1 d1)
    then show ?thesis using L[OF key_fail(2)] by (simp add: balanced_def)
  next
    case (nocolon q this1 d1)
    then show ?thesis using L[OF nocolon(2)] by (simp add: balanced_def)
  next
    case (value_fail q this1 d1 this2 d2)
    show ?thesis unfolding balanced_def
    proof
      fix pl
      show "live d' pl + int (nodes_from_list pl this) = live d pl + int (nodes_from_list pl t)"
        using L[OF value_fail(2), of pl] L[OF value_fail(4), of pl] value_fail(6,7) by simp
    qed
  next
    case (ok q this1 d1 q2)
    show ?thesis unfolding balanced_def
    proof
      fix pl
      show "live d' pl + int (nodes_from_list pl this) = live d pl + int (nodes_from_list pl t)"
        using L[OF ok(2), of pl] L[OF ok(4), of pl] by simp
    qed
  qed
  have c4: "balanced d this d' t" if "ParseElement (Suc n) this json d = Ret (r, t, d')"
    for this json d r t d'
    using that
  proof (cases rule: ParseElement_SucE)
    case (fail cs d1)
    show ?thesis unfolding balanced_def
    proof
      fix pl
      show "live d' pl + int (nodes_from_list pl this) = live d pl + int (nodes_from_list pl t)"
        using E[OF fail(1), of pl] fail(3,4)
        by (simp add: live_DeleteNode live_pool_update del: pool_update.simps DeleteNode.simps)
    qed
  next
    case (ok q cs d1)
    show ?thesis unfolding balanced_def
    proof
      fix pl
      show "live d' pl + int (nodes_from_list pl this) = live d pl + int (nodes_from_list pl t)"
        using E[OF ok(1), of pl] ok(3,4)
        by (simp add: live_pool_update del: pool_update.simps)
    qed
  qed
  have c5: "balanced d this d' t" if "JsonObject_ParseDeep (Suc n) this json d = Ret (r, t, d')"
    for this json d r t d'
    using that
  proof (cases rule: JsonObject_ParseDeep_SucE)
    case eof
    then show ?thesis by (simp add: balanced_def)
  next
    case empty
    then show ?thesis by (simp add: balanced_def)
  next
    case (elems r1 this1 d1)
    show ?thesis unfolding balanced_def
    proof
      fix pl
      show "live d' pl + int (nodes_from_list pl this) = live d pl + int (nodes_from_list pl t)"
        using PE[OF elems(3), of pl] OW[OF elems(4), of pl] by simp
    qed
  qed
  have c6: "balanced d this d' t" if "JsonObject_while (Suc n) this json d = Ret (r, t, d')"
    for this json d r t d'
    using that
  proof (cases rule: JsonObject_while_SucE)
    case (elem_fail p this1 d1)
    then show ?thesis using PE[OF elem_fail(3)] by (simp add: balanced_def)
  next
    case (again p p1 this1 d1)
    show ?thesis unfolding balanced_def
    proof
      fix pl
      show "live d' pl + int (nodes_from_list pl this) = live d pl + int (nodes_from_list pl t)"
        using PE[OF again(3), of pl] OW[OF again(4), of pl] by simp
    qed
  next
    case (close p)
    then show ?thesis by (simp add: balanced_def)
  next
    case (bad p)
    then show ?thesis by (simp add: balanced_def)
  qed
  have c7: "balanced d this d' t" if "JsonArray_ParseDeep (Suc n) this json d = Ret (r, t, d')"
    for this json d r t d'
    using that
  proof (cases rule: JsonArray_ParseDeep_SucE)
    case eof
    then show ?thesis by (simp add: balanced_def)
  next
    case empty
    then show ?thesis by (simp add: balanced_def)
  next
    case run_fail
    then show ?thesis using L[OF run_fail(3)] by (simp add: balanced_def)
  next
    case (run q this1 d1)
    show ?thesis unfolding balanced_def
    proof
      fix pl
      show "live d' pl + int (nodes_from_list pl this) = live d pl + int (nodes_from_list pl t)"
        using L[OF run(3), of pl] AW[OF run(4), of pl] by simp
    qed
  qed
  have c8: "balanced d this d' t" if "JsonArray_while (Suc n) this json d = Ret (r, t, d')"
    for this json d r t d'
    using that
  proof (cases rule: JsonArray_while_SucE)
    case (run_fail this1 d1)
    then show ?thesis using L[OF run_fail(2)] by (simp add: balanced_def)
  next
    case (eof q this1 d1)
    then show ?thesis using L[OF eof(2)] by (simp add: balanced_def)
  next
    case (again q this1 d1)
    show ?thesis unfolding balanced_def
    proof
      fix pl
      show "live d' pl + int (nodes_from_list pl this) = live d pl + int (nodes_from_list pl t)"
        using L[OF again(2), of pl] AW[OF again(4), of pl] by simp
    qed
  next
    case close
    then show ?thesis by (simp add: balanced_def)
  next
    case bad
    then show ?thesis by (simp add: balanced_def)
  qed
  show ?case
    using c1 c2 c3 c4 c5 c6 c7 c8 by (intro conjI allI impI)
qed


lemma accounted_iff:
  "accounted d \<longleftrightarrow> (\<forall>pl. live d pl = int (nodes_from_list pl (docChildren d)))"
proof
  assume "accounted d"
  then show "\<forall>pl. live d pl = int (nodes_from_list pl (docChildren d))"
    unfolding accounted_def by (intro allI, case_tac pl) simp_all
next
  assume "\<forall>pl. live d pl = int (nodes_from_list pl (docChildren d))"
  then show "accounted d" by (simp add: accounted_def)
qed

lemma Parse_prepare_fields:
  "docChildren (Parse_prepare json len d) = []"
  "errorID (Parse_prepare json len d) = JSON_NO_ERROR"
  "live (Parse_prepare json len d) pl = live d pl - int (nodes_from_list pl (docChildren d))"
proof -
  show "docChildren (Parse_prepare json len d) = []"
    by (simp add: Parse_prepare_def InitDocument_def)
  show "errorID (Parse_prepare json len d) = JSON_NO_ERROR"
    by (simp add: Parse_prepare_def InitDocument_def)
  show "live (Parse_prepare json len d) pl = live d pl - int (nodes_from_list pl (docChildren d))"
    using live_DeleteNode(2)[of "docChildren d" d pl]
    by (simp add: Parse_prepare_def live_def)
qed

lemma Parse_fuel_cases:
  assumes "Parse_fuel n json len d = Ret (e, d')"
  obtains (empty) b where "empty_text json"
      "d' = SetError JSON_ERROR_EMPTY_DOCUMENT None None ((Parse_prepare json len d)\<lparr>charBuffer := b\<rparr>)"
      "e = JSON_ERROR_EMPTY_DOCUMENT"
  | (run) r this d3 where "\<not> empty_text json"
      "JsonNode_ParseDeep n [] 0 (Parse_prepare json len d) = Ret (r, this, d3)"
      "e = errorID d3" "d' = d3\<lparr>docChildren := this\<rparr>"
proof (cases json)
  case None
  with assms show ?thesis
    by (intro empty[of "[]"])
       (auto simp: Parse_fuel_def empty_text_def Parse_prepare_def InitDocument_def SetError_def)
next
  case (Some str)
  show ?thesis
  proof (cases "byte_at (str @ [NUL]) 0 = NUL")
    case True
    with assms Some show ?thesis
      by (intro empty[of "[]"])
         (auto simp: Parse_fuel_def empty_text_def Parse_prepare_def InitDocument_def SetError_def)
  next
    case nz: False
    let ?l = "case len of None \<Rightarrow> strlen str | Some l \<Rightarrow> l"
    have fits: "\<not> length str + 1 < ?l"
      using assms Some nz by (auto simp: Parse_fuel_def Let_def split: if_splits)
    show ?thesis
    proof (cases "byte_at (str @ [NUL]) (SkipWhiteSpace_loop (str @ [NUL]) 0) = NUL")
      case True
      with assms Some nz fits show ?thesis
        by (intro empty[of "take ?l (str @ [NUL]) @ [NUL]"])
           (auto simp: Parse_fuel_def empty_text_def Parse_prepare_def InitDocument_def
                       SetError_def Let_def)
    next
      case False
      with assms Some nz fits obtain r this d3 where
        "JsonNode_ParseDeep n [] 0 (Parse_prepare json len d) = Ret (r, this, d3)"
        "e = errorID d3" "d' = d3\<lparr>docChildren := this\<rparr>"
        by (auto simp: Parse_fuel_def Parse_prepare_def Let_def split: run.splits)
      moreover have "\<not> empty_text json"
        using Some nz False by (simp add: empty_text_def)
      ultimately show ?thesis by (intro run)
    qed
  qed
qed

lemma loop_extends:
  "JsonNode_ParseDeep n this json d = Ret (r, t, d') \<Longrightarrow> \<exists>ys. t = this @ ys"
proof (induction n arbitrary: this json d)
  case 0
  then show ?case by simp
next
  case (Suc n)
  from Suc.prems show ?case
  proof (cases rule: JsonNode_ParseDeep_SucE)
    case (step j nd d1 q nd' d2)
    from Suc.IH[OF step(4)] show ?thesis by auto
  qed simp_all
qed

lemma Identify_errorID: "Identify d json nd0 = (j, nd, d1) \<Longrightarrow> errorID d1 = errorID d"
  using Identify_state[of d json nd0 j nd d1] by auto

subsection \<open>The cursor stays inside the buffer\<close>

text \<open>
  A run keeps the length of the buffer and its final NUL: the only write into the buffer is the
  NUL that \<^verbatim>\<open>JsonString::ParseDeep\<close> puts over a closing quote.
\<close>

lemma same_shape_parse:
  "(\<forall>this json d r t d'. JsonNode_ParseDeep n this json d = Ret (r, t, d') \<longrightarrow> same_shape d d')
 \<and> (\<forall>node json d r t d'. ParseDeep n node json d = Ret (r, t, d') \<longrightarrow> same_shape d d')
 \<and> (\<forall>this json d r t d'. JsonElement_ParseDeep n this json d = Ret (r, t, d') \<longrightarrow> same_shape d d')
 \<and> (\<forall>this json d r t d'. ParseElement n this json d = Ret (r, t, d') \<longrightarrow> same_shape d d')
 \<and> (\<forall>this json d r t d'. JsonObject_ParseDeep n this json d = Ret (r, t, d') \<longrightarrow> same_shape d d')
 \<and> (\<forall>this json d r t d'. JsonObject_while n this json d = Ret (r, t, d') \<longrightarrow> same_shape d d')
 \<and> (\<forall>this json d r t d'. JsonArray_ParseDeep n this json d = Ret (r, t, d') \<longrightarrow> same_shape d d')
 \<and> (\<forall>this json d r t d'. JsonArray_while n this json d = Ret (r, t, d') \<longrightarrow> same_shape d d')"
proof (rule parse_rel)
  fix d i
  show "same_shape d (d\<lparr>charBuffer := (charBuffer d)[i := NUL]\<rparr>)"
    by (cases "i = length (charBuffer d) - 1")
       (auto simp: same_shape_def terminated_def last_conv_nth nth_list_update)
qed (auto simp: same_shape_def)

lemmas shape_L = same_shape_parse [THEN conjunct1, rule_format]
lemmas shape_D = same_shape_parse [THEN conjunct2, THEN conjunct1, rule_format]
lemmas shape_E = same_shape_parse [THEN conjunct2, THEN conjunct2, THEN conjunct1, rule_format]
lemmas shape_PE = same_shape_parse [THEN conjunct2, THEN conjunct2, THEN conjunct2, THEN conjunct1, rule_format]

lemma nz_lt: "terminated buf \<Longrightarrow> byte_at buf p \<noteq> NUL \<Longrightarrow> Suc p < length buf"
  by (cases "p = length buf - 1") (auto simp: terminated_def byte_at_def last_conv_nth split: if_splits)

lemma skip_lt: "terminated buf \<Longrightarrow> p < length buf \<Longrightarrow> SkipWhiteSpace_loop buf p < length buf"
  by (simp add: skip_bound terminated_def)

lemma literal_lt:
  assumes "terminated buf" and "take k (drop p buf) = lit" and "length lit = k" and "0 < k"
    and "NUL \<notin> set lit"
  shows "p + k < length buf"
proof -
  from assms(2,3) have "length (take k (drop p buf)) = k" by simp
  then have len: "p + k \<le> length buf" using assms(4) by (simp add: min_def split: if_splits)
  have "lit ! (k - 1) = buf ! (p + (k - 1))"
    using assms(2)[symmetric] assms(4) len by simp
  moreover have "lit ! (k - 1) \<in> set lit" using assms(3,4) by simp
  ultimately have "byte_at buf (p + (k - 1)) \<noteq> NUL"
    using assms(4,5) len by (auto simp: byte_at_def)
  from nz_lt[OF assms(1) this] assms(4) show ?thesis by simp
qed

lemma c_str_length:
  assumes "terminated buf" and "p < length buf"
  shows "p + length (c_str buf p) < length buf"
proof (rule ccontr)
  let ?xs = "drop p buf" and ?P = "\<lambda>c. c \<noteq> NUL"
  let ?i = "length buf - 1 - p"
  assume "\<not> p + length (c_str buf p) < length buf"
  then have i: "?i < length (takeWhile ?P ?xs)" using assms(2) by (simp add: c_str_def)
  then have "takeWhile ?P ?xs ! ?i = ?xs ! ?i" by (rule takeWhile_nth)
  also have "\<dots> = last buf" using assms by (auto simp: last_conv_nth terminated_def)
  finally have "takeWhile ?P ?xs ! ?i = NUL" using assms(1) by (simp add: terminated_def)
  moreover have "takeWhile ?P ?xs ! ?i \<in> set (takeWhile ?P ?xs)" using i by simp
  ultimately show False using set_takeWhileD by fastforce
qed

lemma strtod_len_le: "strtod_len s \<le> length s"
  by (simp add: strtod_len_def split: option.splits)

lemma scan_bound:
  "p < length buf \<Longrightarrow> JsonString_scan buf p = Ret ptr \<Longrightarrow> p \<le> ptr \<and> ptr < length buf"
proof (induction buf p rule: JsonString_scan.induct)
  case (1 buf q)
  show ?case
  proof (cases "buf ! q \<noteq> DQUOTE \<and> buf ! q \<noteq> NUL")
    case False
    with "1.prems" show ?thesis by (simp add: JsonString_scan.simps[of buf q])
  next
    case more: True
    show ?thesis
    proof (cases "buf ! q = BACKSLASH")
      case True
      with more "1.prems" have nxt: "JsonString_scan buf (q + 2) = Ret ptr"
        by (simp add: JsonString_scan.simps[of buf q])
      then have "q + 2 < length buf"
        by (cases "q + 2 < length buf") (simp_all add: JsonString_scan.simps[of buf "Suc (Suc q)"])
      with "1.IH"(1)[OF _ more True _ nxt] "1.prems"(1) show ?thesis by simp
    next
      case False
      with more "1.prems" have nxt: "JsonString_scan buf (q + 1) = Ret ptr"
        by (simp add: JsonString_scan.simps[of buf q])
      then have "q + 1 < length buf"
        by (cases "q + 1 < length buf") (simp_all add: JsonString_scan.simps[of buf "Suc q"])
      with "1.IH"(2)[OF _ more False _ nxt] "1.prems"(1) show ?thesis by simp
    qed
  qed
qed

lemma scan_fuel: "JsonString_scan buf p \<noteq> OutOfFuel"
  by (induction buf p rule: JsonString_scan.induct)
     (subst JsonString_scan.simps, auto)


lemmas shape_OB = same_shape_parse [THEN conjunct2, THEN conjunct2, THEN conjunct2, THEN conjunct2, THEN conjunct1, rule_format]
lemmas shape_OW = same_shape_parse [THEN conjunct2, THEN conjunct2, THEN conjunct2, THEN conjunct2, THEN conjunct2, THEN conjunct1, rule_format]
lemmas shape_AR = same_shape_parse [THEN conjunct2, THEN conjunct2, THEN conjunct2, THEN conjunct2, THEN conjunct2, THEN conjunct2, THEN conjunct1, rule_format]
lemmas shape_AW = same_shape_parse [THEN conjunct2, THEN conjunct2, THEN conjunct2, THEN conjunct2, THEN conjunct2, THEN conjunct2, THEN conjunct2, rule_format]

lemma same_shapeD:
  "same_shape d d' \<Longrightarrow> terminated (charBuffer d) \<Longrightarrow>
     length (charBuffer d') = length (charBuffer d) \<and> terminated (charBuffer d')"
  by (simp add: same_shape_def)

lemma Identify_charBuffer: "Identify d p nd0 = (j, nd, d1) \<Longrightarrow> charBuffer d1 = charBuffer d"
  using Identify_state[of d p nd0 j nd d1] by auto

lemma Identify_bounds:
  assumes "terminated (charBuffer d)" and "p < length (charBuffer d)"
    and "Identify d p None = (j, nd, d1)"
  shows "p \<le> j \<and> j < length (charBuffer d)"
    and "nd = Some node \<Longrightarrow>
           kind node = JsonReserved RESERVED \<or> kind node = JsonNumber ''0''
           \<or> (p < j \<and> (kind node = JsonString None \<or> kind node = JsonObject
                          \<or> kind node = JsonArray))"
proof -
  let ?p0 = "SkipWhiteSpace_loop (charBuffer d) p"
  have p0: "p \<le> ?p0" "?p0 < length (charBuffer d)"
    using skip_ge skip_lt[OF assms(1,2)] by auto
  have nz: "byte_at (charBuffer d) ?p0 \<noteq> NUL \<Longrightarrow> Suc ?p0 < length (charBuffer d)"
    using nz_lt[OF assms(1)] by blast
  from assms(3) have "j = ?p0 \<or> (byte_at (charBuffer d) ?p0 \<noteq> NUL \<and> j = ?p0 + 1)"
    unfolding Identify_def Let_def by (simp only: split: if_splits) auto
  with p0 nz show "p \<le> j \<and> j < length (charBuffer d)" by auto
  assume "nd = Some node"
  with assms(3) p0 show "kind node = JsonReserved RESERVED \<or> kind node = JsonNumber ''0''
           \<or> (p < j \<and> (kind node = JsonString None \<or> kind node = JsonObject
                          \<or> kind node = JsonArray))"
    unfolding Identify_def Let_def by (simp only: split: if_splits) auto
qed

lemma JsonObject_while_None: "JsonObject_while n this None d \<noteq> Ret x"
  by (cases n) simp_all

lemma parse_progress:
  "(\<forall>this p d p' t d'. terminated (charBuffer d) \<and> p < length (charBuffer d)
        \<and> JsonNode_ParseDeep n this p d = Ret (Some p', t, d')
      \<longrightarrow> p \<le> p' \<and> p' < length (charBuffer d))
 \<and> (\<forall>node p d p' t d'. terminated (charBuffer d) \<and> p < length (charBuffer d)
        \<and> ParseDeep n node p d = Ret (Some p', t, d')
      \<longrightarrow> p \<le> p' \<and> p' < length (charBuffer d)
          \<and> (kind node = JsonReserved RESERVED \<or> kind node = JsonNumber ''0'' \<longrightarrow> p < p'))
 \<and> (\<forall>this p d p' t d'. terminated (charBuffer d) \<and> p < length (charBuffer d)
        \<and> JsonElement_ParseDeep n this p d = Ret (Some p', t, d')
      \<longrightarrow> p \<le> p' \<and> p' < length (charBuffer d))
 \<and> (\<forall>this p d p' t d'. terminated (charBuffer d) \<and> p < length (charBuffer d)
        \<and> ParseElement n this p d = Ret (Some p', t, d')
      \<longrightarrow> p \<le> p' \<and> p' < length (charBuffer d))
 \<and> (\<forall>this p d p' t d'. terminated (charBuffer d) \<and> p < length (charBuffer d)
        \<and> JsonObject_ParseDeep n this p d = Ret (Some p', t, d')
      \<longrightarrow> p \<le> p' \<and> p' < length (charBuffer d))
 \<and> (\<forall>this p d p' t d'. terminated (charBuffer d) \<and> p < length (charBuffer d)
        \<and> JsonObject_while n this (Some p) d = Ret (Some p', t, d')
      \<longrightarrow> p \<le> p' \<and> p' < length (charBuffer d))
 \<and> (\<forall>this p d p' t d'. terminated (charBuffer d) \<and> p < length (charBuffer d)
        \<and> JsonArray_ParseDeep n this p d = Ret (Some p', t, d')
      \<longrightarrow> p \<le> p' \<and> p' < length (charBuffer d))
 \<and> (\<forall>this p d p' t d'. terminated (charBuffer d) \<and> p < length (charBuffer d)
        \<and> JsonArray_while n this p d = Ret (Some p', t, d')
      \<longrightarrow> p \<le> p' \<and> p' < length (charBuffer d))"
proof (induction n)
  case 0
  show ?case by simp
next
  case (Suc n)
  note L = Suc.IH [THEN conjunct1, rule_format, OF conjI [OF _ conjI]]
    and D = Suc.IH [THEN conjunct2, THEN conjunct1, rule_format, OF conjI [OF _ conjI]]
    and E = Suc.IH [THEN conjunct2, THEN conjunct2, THEN conjunct1, rule_format,
                    OF conjI [OF _ conjI]]
    and PE = Suc.IH [THEN conjunct2, THEN conjunct2, THEN conjunct2, THEN conjunct1, rule_format,
                     OF conjI [OF _ conjI]]
    and OB = Suc.IH [THEN conjunct2, THEN conjunct2, THEN conjunct2, THEN conjunct2,
                     THEN conjunct1, rule_format, OF conjI [OF _ conjI]]
    and OW = Suc.IH [THEN conjunct2, THEN conjunct2, THEN conjunct2, THEN conjunct2,
                     THEN conjunct2, THEN conjunct1, rule_format, OF conjI [OF _ conjI]]
    and AR = Suc.IH [THEN conjunct2, THEN conjunct2, THEN conjunct2, THEN conjunct2,
                     THEN conjunct2, THEN conjunct2, THEN conjunct1, rule_format,
                     OF conjI [OF _ conjI]]
    and AW = Suc.IH [THEN conjunct2, THEN conjunct2, THEN conjunct2, THEN conjunct2,
                     THEN conjunct2, THEN conjunct2, THEN conjunct2, rule_format,
                     OF conjI [OF _ conjI]]
  have c1: "p \<le> p' \<and> p' < length (charBuffer d)"
    if T: "terminated (charBuffer d)" and B: "p < length (charBuffer d)"
      and run: "JsonNode_ParseDeep (Suc n) this p d = Ret (Some p', t, d')"
    for this p d p' t d'
    using run
  proof (cases rule: JsonNode_ParseDeep_SucE)
    case eof
    with B show ?thesis by simp
  next
    case (none j d1)
    with Identify_bounds(1)[OF T B none(2)] show ?thesis by simp
  next
    case (fail j nd d1 nd' d2)
    then show ?thesis by simp
  next
    case (step j nd d1 q nd' d2)
    note j = Identify_bounds(1)[OF T B step(2)] and b1 = Identify_charBuffer[OF step(2)]
    from D[OF _ _ step(3)] T j b1 have q: "j \<le> q" "q < length (charBuffer d)" by auto
    from same_shapeD[OF shape_D[OF step(3)]] T b1
    have s2: "length (charBuffer d2) = length (charBuffer d)" "terminated (charBuffer d2)" by auto
    let ?q = "SkipWhiteSpace_loop (charBuffer d2) q"
    have q2: "q \<le> ?q" "?q < length (charBuffer d)"
      using skip_ge skip_lt[OF s2(2), of q] q s2(1) by auto
    from L[OF _ _ step(4)] s2 q2 have "?q \<le> p'" "p' < length (charBuffer d)" by auto
    with j q q2 show ?thesis by simp
  qed
  have c2: "p \<le> p' \<and> p' < length (charBuffer d)
        \<and> (kind node = JsonReserved RESERVED \<or> kind node = JsonNumber ''0'' \<longrightarrow> p < p')"
    if T: "terminated (charBuffer d)" and B: "p < length (charBuffer d)"
      and run: "ParseDeep (Suc n) node p d = Ret (Some p', t, d')"
    for node p d p' t d'
    using run
  proof (cases rule: ParseDeep_SucE)
    case (reserved ty)
    from reserved(2) show ?thesis
    proof (cases rule: JsonReserved_ParseDeep_cases)
      case (ok ty lit k)
      with literal_lt[OF T ok(4,3,2,5)] show ?thesis by simp
    qed simp
  next
    case (number v)
    let ?p0 = "SkipWhiteSpace_loop (charBuffer d) p"
    from number(2) show ?thesis
    proof (cases rule: JsonNumber_ParseDeep_cases)
      case (ok k)
      have "?p0 + length (c_str (charBuffer d) ?p0) < length (charBuffer d)"
        by (rule c_str_length[OF T skip_lt[OF T B]])
      moreover have "k \<le> length (c_str (charBuffer d) ?p0)"
        unfolding ok(1) by (rule strtod_len_le)
      ultimately show ?thesis using ok(2,3) skip_ge[of p "charBuffer d"] by simp
    qed simp
  next
    case (string sp)
    from string(2) show ?thesis
    proof (cases rule: JsonString_ParseDeep_cases)
      case (ok ptr)
      from scan_bound[OF B ok(1)] nz_lt[OF T ok(2)] ok(3) string(1) show ?thesis by simp
    qed simp
  next
    case (element cs)
    with E[OF T B element(2)] show ?thesis by simp
  next
    case (object cs)
    with OB[OF T B object(2)] show ?thesis by simp
  next
    case (array cs)
    with AR[OF T B array(2)] show ?thesis by simp
  qed
  have c3: "p \<le> p' \<and> p' < length (charBuffer d)"
    if T: "terminated (charBuffer d)" and B: "p < length (charBuffer d)"
      and run: "JsonElement_ParseDeep (Suc n) this p d = Ret (Some p', t, d')"
    for this p d p' t d'
    using run
  proof (cases rule: JsonElement_ParseDeep_SucE)
    case (ok q this1 d1 q2)
    note q = L[OF T B ok(2)]
    from same_shapeD[OF shape_L[OF ok(2)] T]
    have s1: "length (charBuffer d1) = length (charBuffer d)" "terminated (charBuffer d1)" by auto
    let ?q = "SkipWhiteSpace_loop (charBuffer d1) q"
    have q': "q \<le> ?q" "Suc ?q < length (charBuffer d1)"
      using skip_ge nz_lt[OF s1(2), of ?q] ok(3) by auto
    note q2 = L[OF s1(2) _ ok(4)]
    from same_shapeD[OF shape_L[OF ok(4)] s1(2)]
    have s2: "length (charBuffer d') = length (charBuffer d1)" "terminated (charBuffer d')" by auto
    have "q2 \<le> SkipWhiteSpace_loop (charBuffer d') q2"
      "SkipWhiteSpace_loop (charBuffer d') q2 < length (charBuffer d')"
      using skip_ge skip_lt[OF s2(2), of q2] q2 q' s2(1) by auto
    with q q' q2 s1 s2 ok(5) show ?thesis by simp
  qed simp_all
  have c4: "p \<le> p' \<and> p' < length (charBuffer d)"
    if T: "terminated (charBuffer d)" and B: "p < length (charBuffer d)"
      and run: "ParseElement (Suc n) this p d = Ret (Some p', t, d')"
    for this p d p' t d'
    using run
  proof (cases rule: ParseElement_SucE)
    case (ok q cs d1)
    let ?d0 = "pool_update ElementPool Alloc d"
    have T0: "terminated (charBuffer ?d0)" and B0: "p < length (charBuffer ?d0)"
      using T B by simp_all
    note q = E[OF T0 B0 ok(1)]
    from same_shapeD[OF shape_E[OF ok(1)] T0]
    have s1: "length (charBuffer d1) = length (charBuffer d)" "terminated (charBuffer d1)" by auto
    have "q \<le> SkipWhiteSpace_loop (charBuffer d1) q"
      "SkipWhiteSpace_loop (charBuffer d1) q < length (charBuffer d1)"
      using skip_ge skip_lt[OF s1(2), of q] q s1(1) by auto
    with q s1 ok(2) show ?thesis by simp
  qed simp
  have c5: "p \<le> p' \<and> p' < length (charBuffer d)"
    if T: "terminated (charBuffer d)" and B: "p < length (charBuffer d)"
      and run: "JsonObject_ParseDeep (Suc n) this p d = Ret (Some p', t, d')"
    for this p d p' t d'
    using run
  proof (cases rule: JsonObject_ParseDeep_SucE)
    case eof
    then show ?thesis by simp
  next
    case empty
    with nz_lt[OF T, of "SkipWhiteSpace_loop (charBuffer d) p"] skip_ge[of p "charBuffer d"]
    show ?thesis by simp
  next
    case (elems r1 this1 d1)
    let ?p0 = "SkipWhiteSpace_loop (charBuffer d) p"
    have p0: "p \<le> ?p0" "?p0 < length (charBuffer d)" using skip_ge skip_lt[OF T B] by auto
    from elems(4) obtain p1 where r1: "r1 = Some p1"
      using JsonObject_while_None by (cases r1) auto
    note p1 = PE[OF T p0(2) elems(3)[unfolded r1]]
    from same_shapeD[OF shape_PE[OF elems(3)] T]
    have s1: "length (charBuffer d1) = length (charBuffer d)" "terminated (charBuffer d1)" by auto
    from OW[OF s1(2) _ elems(4)[unfolded r1]] p1 s1(1) p0 show ?thesis by simp
  qed
  have c6: "p \<le> p' \<and> p' < length (charBuffer d)"
    if T: "terminated (charBuffer d)" and B: "p < length (charBuffer d)"
      and run: "JsonObject_while (Suc n) this (Some p) d = Ret (Some p', t, d')"
    for this p d p' t d'
    using run
  proof (cases rule: JsonObject_while_SucE)
    case (again pa p1 this1 d1)
    then have pa: "pa = p" by simp
    have B1: "p + 1 < length (charBuffer d)" using nz_lt[OF T, of p] again(2) pa by simp
    note p1 = PE[OF T B1 again(3)[unfolded pa]]
    from same_shapeD[OF shape_PE[OF again(3)] T]
    have s1: "length (charBuffer d1) = length (charBuffer d)" "terminated (charBuffer d1)" by auto
    from OW[OF s1(2) _ again(4)] p1 s1(1) show ?thesis by simp
  next
    case (close pa)
    with nz_lt[OF T, of p] show ?thesis by simp
  qed simp_all
  have c7: "p \<le> p' \<and> p' < length (charBuffer d)"
    if T: "terminated (charBuffer d)" and B: "p < length (charBuffer d)"
      and run: "JsonArray_ParseDeep (Suc n) this p d = Ret (Some p', t, d')"
    for this p d p' t d'
    using run
  proof (cases rule: JsonArray_ParseDeep_SucE)
    case eof
    then show ?thesis by simp
  next
    case empty
    with nz_lt[OF T, of "SkipWhiteSpace_loop (charBuffer d) p"] skip_ge[of p "charBuffer d"]
    show ?thesis by simp
  next
    case run_fail
    then show ?thesis by simp
  next
    case (run q this1 d1)
    let ?p0 = "SkipWhiteSpace_loop (charBuffer d) p"
    have p0: "p \<le> ?p0" "?p0 < length (charBuffer d)" using skip_ge skip_lt[OF T B] by auto
    note q = L[OF T p0(2) run(3)]
    from same_shapeD[OF shape_L[OF run(3)] T]
    have s1: "length (charBuffer d1) = length (charBuffer d)" "terminated (charBuffer d1)" by auto
    let ?q = "SkipWhiteSpace_loop (charBuffer d1) q"
    have q': "q \<le> ?q" "?q < length (charBuffer d1)"
      using skip_ge skip_lt[OF s1(2), of q] q s1(1) by auto
    from AW[OF s1(2) q'(2) run(4)] q q' p0 s1(1) show ?thesis by simp
  qed
  have c8: "p \<le> p' \<and> p' < length (charBuffer d)"
    if T: "terminated (charBuffer d)" and B: "p < length (charBuffer d)"
      and run: "JsonArray_while (Suc n) this p d = Ret (Some p', t, d')"
    for this p d p' t d'
    using run
  proof (cases rule: JsonArray_while_SucE)
    case (again q this1 d1)
    have B1: "p + 1 < length (charBuffer d)" using nz_lt[OF T, of p] again(1) by simp
    note q = L[OF T B1 again(2)]
    from same_shapeD[OF shape_L[OF again(2)] T]
    have s1: "length (charBuffer d1) = length (charBuffer d)" "terminated (charBuffer d1)" by auto
    let ?q = "SkipWhiteSpace_loop (charBuffer d1) q"
    have q': "q \<le> ?q" "?q < length (charBuffer d1)"
      using skip_ge skip_lt[OF s1(2), of q] q s1(1) by auto
    from AW[OF s1(2) q'(2) again(4)] q q' s1(1) show ?thesis by simp
  next
    case close
    with nz_lt[OF T, of p] show ?thesis by simp
  qed simp_all
  have r1: "\<forall>this p d p' t d'. terminated (charBuffer d) \<and> p < length (charBuffer d) \<and> JsonNode_ParseDeep (Suc n) this p d = Ret (Some p', t, d')
      \<longrightarrow> p \<le> p' \<and> p' < length (charBuffer d)"
    using c1 by blast
  have r2: "\<forall>node p d p' t d'. terminated (charBuffer d) \<and> p < length (charBuffer d) \<and> ParseDeep (Suc n) node p d = Ret (Some p', t, d')
      \<longrightarrow> p \<le> p' \<and> p' < length (charBuffer d)
          \<and> (kind node = JsonReserved RESERVED \<or> kind node = JsonNumber ''0'' \<longrightarrow> p < p')"
    using c2 by blast
  have r3: "\<forall>this p d p' t d'. terminated (charBuffer d) \<and> p < length (charBuffer d) \<and> JsonElement_ParseDeep (Suc n) this p d = Ret (Some p', t, d')
      \<longrightarrow> p \<le> p' \<and> p' < length (charBuffer d)"
    using c3 by blast
  have r4: "\<forall>this p d p' t d'. terminated (charBuffer d) \<and> p < length (charBuffer d) \<and> ParseElement (Suc n) this p d = Ret (Some p', t, d')
      \<longrightarrow> p \<le> p' \<and> p' < length (charBuffer d)"
    using c4 by blast
  have r5: "\<forall>this p d p' t d'. terminated (charBuffer d) \<and> p < length (charBuffer d) \<and> JsonObject_ParseDeep (Suc n) this p d = Ret (Some p', t, d')
      \<longrightarrow> p \<le> p' \<and> p' < length (charBuffer d)"
    using c5 by blast
  have r6: "\<forall>this p d p' t d'. terminated (charBuffer d) \<and> p < length (charBuffer d) \<and> JsonObject_while (Suc n) this (Some p) d = Ret (Some p', t, d')
      \<longrightarrow> p \<le> p' \<and> p' < length (charBuffer d)"
    using c6 by blast
  have r7: "\<forall>this p d p' t d'. terminated (charBuffer d) \<and> p < length (charBuffer d) \<and> JsonArray_ParseDeep (Suc n) this p d = Ret (Some p', t, d')
      \<longrightarrow> p \<le> p' \<and> p' < length (charBuffer d)"
    using c7 by blast
  have r8: "\<forall>this p d p' t d'. terminated (charBuffer d) \<and> p < length (charBuffer d) \<and> JsonArray_while (Suc n) this p d = Ret (Some p', t, d')
      \<longrightarrow> p \<le> p' \<and> p' < length (charBuffer d)"
    using c8 by blast
  show ?case
    by (intro conjI; fact r1 r2 r3 r4 r5 r6 r7 r8)
qed

subsection \<open>\<open>Parse\<close> returns\<close>

text \<open>
  One level of each routine, for a run that has used up its budget; then, by induction on the
  budget: five levels per byte between the cursor and the final NUL, and a few more for the
  routine itself, are enough.
\<close>

lemmas prog_L = parse_progress [THEN conjunct1, rule_format, OF conjI [OF _ conjI]]
lemmas prog_D = parse_progress [THEN conjunct2, THEN conjunct1, rule_format, OF conjI [OF _ conjI]]
lemmas prog_E = parse_progress [THEN conjunct2, THEN conjunct2, THEN conjunct1, rule_format,
                    OF conjI [OF _ conjI]]
lemmas prog_PE = parse_progress [THEN conjunct2, THEN conjunct2, THEN conjunct2, THEN conjunct1,
                    rule_format, OF conjI [OF _ conjI]]

lemma JsonNode_ParseDeep_OOF:
  assumes "JsonNode_ParseDeep (Suc n) this json d = OutOfFuel"
  obtains (call) j nd d1 where "byte_at (charBuffer d) json \<noteq> NUL"
      "Identify d json None = (j, Some nd, d1)" "ParseDeep n nd j d1 = OutOfFuel"
  | (step) j nd d1 q nd' d2 where "byte_at (charBuffer d) json \<noteq> NUL"
      "Identify d json None = (j, Some nd, d1)"
      "ParseDeep n nd j d1 = Ret (Some q, nd', d2)"
      "JsonNode_ParseDeep n (this @ [nd']) (SkipWhiteSpace_loop (charBuffer d2) q)
         (pool_update (memPool nd') SetTracked d2) = OutOfFuel"
  using assms
  by (auto simp: SkipWhiteSpace_def InsertEndChild_def
           split: if_splits prod.splits option.splits run.splits)

lemma ParseDeep_OOF:
  assumes "ParseDeep (Suc n) node json d = OutOfFuel"
  obtains (string) sp where "kind node = JsonString sp"
      "JsonString_ParseDeep node json d = OutOfFuel"
  | (element) "kind node = JsonElement"
      "JsonElement_ParseDeep n (children node) json d = OutOfFuel"
  | (object) "kind node = JsonObject"
      "JsonObject_ParseDeep n (children node) json d = OutOfFuel"
  | (array) "kind node = JsonArray"
      "JsonArray_ParseDeep n (children node) json d = OutOfFuel"
  using assms
  by (auto split: Kind.splits prod.splits run.splits)

lemma JsonElement_ParseDeep_OOF:
  assumes "JsonElement_ParseDeep (Suc n) this json d = OutOfFuel"
  obtains (key) "byte_at (charBuffer d) json = DQUOTE"
      "JsonNode_ParseDeep n this json d = OutOfFuel"
  | (val) q this1 d1 where "byte_at (charBuffer d) json = DQUOTE"
      "JsonNode_ParseDeep n this json d = Ret (Some q, this1, d1)"
      "byte_at (charBuffer d1) (SkipWhiteSpace_loop (charBuffer d1) q) = CHR '':''"
      "JsonNode_ParseDeep n this1 (SkipWhiteSpace_loop (charBuffer d1) q + 1) d1 = OutOfFuel"
  using assms
  by (auto simp: SkipWhiteSpace_def split: if_splits prod.splits option.splits run.splits)

lemma ParseElement_OOF:
  assumes "ParseElement (Suc n) this json d = OutOfFuel"
  shows "JsonElement_ParseDeep n [] json (pool_update ElementPool Alloc d) = OutOfFuel"
  using assms
  by (auto simp: SkipWhiteSpace_def InsertEndChild_def CreatElement_def
           simp del: pool_update.simps DeleteNode.simps
           split: if_splits prod.splits option.splits run.splits)

lemma JsonObject_ParseDeep_OOF:
  assumes "JsonObject_ParseDeep (Suc n) this json d = OutOfFuel"
  obtains (elem)
      "byte_at (charBuffer d) (SkipWhiteSpace_loop (charBuffer d) json) \<noteq> NUL"
      "ParseElement n this (SkipWhiteSpace_loop (charBuffer d) json) d = OutOfFuel"
  | (loop) r this1 d1 where
      "byte_at (charBuffer d) (SkipWhiteSpace_loop (charBuffer d) json) \<noteq> NUL"
      "ParseElement n this (SkipWhiteSpace_loop (charBuffer d) json) d = Ret (r, this1, d1)"
      "JsonObject_while n this1 r d1 = OutOfFuel"
  using assms
  by (auto simp: Let_def split: if_splits prod.splits option.splits run.splits)

lemma JsonObject_while_OOF:
  assumes "JsonObject_while (Suc n) this json d = OutOfFuel"
  obtains (elem) p where "json = Some p" "byte_at (charBuffer d) p = CHR '',''"
      "ParseElement n this (p + 1) d = OutOfFuel"
  | (again) p p1 this1 d1 where "json = Some p" "byte_at (charBuffer d) p = CHR '',''"
      "ParseElement n this (p + 1) d = Ret (Some p1, this1, d1)"
      "JsonObject_while n this1 (Some p1) d1 = OutOfFuel"
  using assms
  by (auto split: if_splits prod.splits option.splits run.splits)

lemma JsonArray_ParseDeep_OOF:
  assumes "JsonArray_ParseDeep (Suc n) this json d = OutOfFuel"
  obtains (run)
      "byte_at (charBuffer d) (SkipWhiteSpace_loop (charBuffer d) json) \<noteq> NUL"
      "JsonNode_ParseDeep n this (SkipWhiteSpace_loop (charBuffer d) json) d = OutOfFuel"
  | (loop) q this1 d1 where
      "byte_at (charBuffer d) (SkipWhiteSpace_loop (charBuffer d) json) \<noteq> NUL"
      "JsonNode_ParseDeep n this (SkipWhiteSpace_loop (charBuffer d) json) d
         = Ret (Some q, this1, d1)"
      "JsonArray_while n this1 (SkipWhiteSpace_loop (charBuffer d1) q) d1 = OutOfFuel"
  using assms
  by (auto simp: Let_def SkipWhiteSpace_def split: if_splits prod.splits option.splits run.splits)

lemma JsonArray_while_OOF:
  assumes "JsonArray_while (Suc n) this json d = OutOfFuel"
  obtains (run) "byte_at (charBuffer d) json = CHR '',''"
      "JsonNode_ParseDeep n this (json + 1) d = OutOfFuel"
  | (again) q this1 d1 where "byte_at (charBuffer d) json = CHR '',''"
      "JsonNode_ParseDeep n this (json + 1) d = Ret (Some q, this1, d1)"
      "JsonArray_while n this1 (SkipWhiteSpace_loop (charBuffer d1) q) d1 = OutOfFuel"
  using assms
  by (auto simp: SkipWhiteSpace_def split: if_splits prod.splits option.splits run.splits)


lemma parse_fuel:
  "(\<forall>this p d. terminated (charBuffer d) \<and> p < length (charBuffer d)
        \<and> 5 * (length (charBuffer d) - Suc p) + 1 \<le> n
      \<longrightarrow> JsonNode_ParseDeep n this p d \<noteq> OutOfFuel)
 \<and> (\<forall>node p d. terminated (charBuffer d) \<and> p < length (charBuffer d)
        \<and> 0 < n
        \<and> (kind node = JsonElement \<or> kind node = JsonObject \<or> kind node = JsonArray
             \<longrightarrow> 5 * (length (charBuffer d) - Suc p) + 5 \<le> n)
      \<longrightarrow> ParseDeep n node p d \<noteq> OutOfFuel)
 \<and> (\<forall>this p d. terminated (charBuffer d) \<and> p < length (charBuffer d)
        \<and> 5 * (length (charBuffer d) - Suc p) + 2 \<le> n
      \<longrightarrow> JsonElement_ParseDeep n this p d \<noteq> OutOfFuel)
 \<and> (\<forall>this p d. terminated (charBuffer d) \<and> p < length (charBuffer d)
        \<and> 5 * (length (charBuffer d) - Suc p) + 3 \<le> n
      \<longrightarrow> ParseElement n this p d \<noteq> OutOfFuel)
 \<and> (\<forall>this p d. terminated (charBuffer d) \<and> p < length (charBuffer d)
        \<and> 5 * (length (charBuffer d) - Suc p) + 4 \<le> n
      \<longrightarrow> JsonObject_ParseDeep n this p d \<noteq> OutOfFuel)
 \<and> (\<forall>this p d. terminated (charBuffer d) \<and> p < length (charBuffer d)
        \<and> 5 * (length (charBuffer d) - Suc p) + 1 \<le> n
      \<longrightarrow> JsonObject_while n this (Some p) d \<noteq> OutOfFuel)
 \<and> (\<forall>this p d. terminated (charBuffer d) \<and> p < length (charBuffer d)
        \<and> 5 * (length (charBuffer d) - Suc p) + 2 \<le> n
      \<longrightarrow> JsonArray_ParseDeep n this p d \<noteq> OutOfFuel)
 \<and> (\<forall>this p d. terminated (charBuffer d) \<and> p < length (charBuffer d)
        \<and> 5 * (length (charBuffer d) - Suc p) + 1 \<le> n
      \<longrightarrow> JsonArray_while n this p d \<noteq> OutOfFuel)"
proof (induction n)
  case 0
  show ?case by simp
next
  case (Suc n)
  note L = Suc.IH [THEN conjunct1, rule_format, OF conjI [OF _ conjI]]
    and D = Suc.IH [THEN conjunct2, THEN conjunct1, rule_format,
                    OF conjI [OF _ conjI [OF _ conjI]]]
    and E = Suc.IH [THEN conjunct2, THEN conjunct2, THEN conjunct1, rule_format,
                    OF conjI [OF _ conjI]]
    and PE = Suc.IH [THEN conjunct2, THEN conjunct2, THEN conjunct2, THEN conjunct1, rule_format,
                     OF conjI [OF _ conjI]]
    and OB = Suc.IH [THEN conjunct2, THEN conjunct2, THEN conjunct2, THEN conjunct2,
                     THEN conjunct1, rule_format, OF conjI [OF _ conjI]]
    and OW = Suc.IH [THEN conjunct2, THEN conjunct2, THEN conjunct2, THEN conjunct2,
                     THEN conjunct2, THEN conjunct1, rule_format, OF conjI [OF _ conjI]]
    and AR = Suc.IH [THEN conjunct2, THEN conjunct2, THEN conjunct2, THEN conjunct2,
                     THEN conjunct2, THEN conjunct2, THEN conjunct1, rule_format,
                     OF conjI [OF _ conjI]]
    and AW = Suc.IH [THEN conjunct2, THEN conjunct2, THEN conjunct2, THEN conjunct2,
                     THEN conjunct2, THEN conjunct2, THEN conjunct2, rule_format,
                     OF conjI [OF _ conjI]]
  have c1: "JsonNode_ParseDeep (Suc n) this p d \<noteq> OutOfFuel"
    if T: "terminated (charBuffer d)" and B: "p < length (charBuffer d)"
      and F: "5 * (length (charBuffer d) - Suc p) + 1 \<le> Suc n"
    for this p d
  proof
    assume "JsonNode_ParseDeep (Suc n) this p d = OutOfFuel"
    then show False
    proof (cases rule: JsonNode_ParseDeep_OOF)
      case (call j nd d1)
      note b = Identify_charBuffer[OF call(2)]
      note j = Identify_bounds(1)[OF T B call(2)]
      note k = Identify_bounds(2)[OF T B call(2) refl]
      have nz: "Suc p < length (charBuffer d)" by (rule nz_lt[OF T call(1)])
      have T1: "terminated (charBuffer d1)" and B1: "j < length (charBuffer d1)"
        using T j b by simp_all
      have pos: "0 < n" using F nz by simp
      have "5 * (length (charBuffer d1) - Suc j) + 5 \<le> n"
        if "kind nd = JsonElement \<or> kind nd = JsonObject \<or> kind nd = JsonArray"
        using that k j F b by auto
      then have "ParseDeep n nd j d1 \<noteq> OutOfFuel"
        using D[OF T1 B1 pos] by blast
      with call(3) show False by contradiction
    next
      case (step j nd d1 q nd' d2)
      note b = Identify_charBuffer[OF step(2)]
      note j = Identify_bounds(1)[OF T B step(2)]
      note k = Identify_bounds(2)[OF T B step(2) refl]
      have T1: "terminated (charBuffer d1)" and B1: "j < length (charBuffer d1)"
        using T j b by simp_all
      note q = prog_D[OF T1 B1 step(3)]
      from same_shapeD[OF shape_D[OF step(3)] T1]
      have s2: "length (charBuffer d2) = length (charBuffer d)" "terminated (charBuffer d2)"
        using b by auto
      let ?d3 = "pool_update (memPool nd') SetTracked d2"
      let ?q = "SkipWhiteSpace_loop (charBuffer d2) q"
      have pq: "p < q" using k q j by auto
      have q': "q \<le> ?q" "?q < length (charBuffer d2)"
        using skip_ge skip_lt[OF s2(2), of q] q b s2(1) by auto
      have T3: "terminated (charBuffer ?d3)" and B3: "?q < length (charBuffer ?d3)"
        using s2 q' by simp_all
      have "5 * (length (charBuffer ?d3) - Suc ?q) + 1 \<le> n"
        using F pq q' s2(1) by (simp?; arith)
      from L[OF T3 B3 this] step(4) show False by (simp del: pool_update.simps)
    qed
  qed
  have c2: "ParseDeep (Suc n) node p d \<noteq> OutOfFuel"
    if T: "terminated (charBuffer d)" and B: "p < length (charBuffer d)"
      and F: "kind node = JsonElement \<or> kind node = JsonObject \<or> kind node = JsonArray
             \<longrightarrow> 5 * (length (charBuffer d) - Suc p) + 5 \<le> Suc n"
    for node p d
  proof
    assume "ParseDeep (Suc n) node p d = OutOfFuel"
    then show False
    proof (cases rule: ParseDeep_OOF)
      case (string sp)
      then show False
        using scan_fuel[of "charBuffer d" p]
        by (simp add: JsonString_ParseDeep_def split: run.splits if_splits)
    next
      case element
      with F have "5 * (length (charBuffer d) - Suc p) + 2 \<le> n" by (simp?; arith)
      from E[OF T B this] element(2) show False by contradiction
    next
      case object
      with F have "5 * (length (charBuffer d) - Suc p) + 4 \<le> n" by (simp?; arith)
      from OB[OF T B this] object(2) show False by contradiction
    next
      case array
      with F have "5 * (length (charBuffer d) - Suc p) + 2 \<le> n" by (simp?; arith)
      from AR[OF T B this] array(2) show False by contradiction
    qed
  qed
  have c3: "JsonElement_ParseDeep (Suc n) this p d \<noteq> OutOfFuel"
    if T: "terminated (charBuffer d)" and B: "p < length (charBuffer d)"
      and F: "5 * (length (charBuffer d) - Suc p) + 2 \<le> Suc n"
    for this p d
  proof
    assume "JsonElement_ParseDeep (Suc n) this p d = OutOfFuel"
    then show False
    proof (cases rule: JsonElement_ParseDeep_OOF)
      case key
      from F have "5 * (length (charBuffer d) - Suc p) + 1 \<le> n" by (simp?; arith)
      from L[OF T B this] key(2) show False by contradiction
    next
      case (val q this1 d1)
      note q = prog_L[OF T B val(2)]
      from same_shapeD[OF shape_L[OF val(2)] T]
      have s1: "length (charBuffer d1) = length (charBuffer d)" "terminated (charBuffer d1)"
        by auto
      let ?q = "SkipWhiteSpace_loop (charBuffer d1) q"
      have q': "q \<le> ?q" "?q + 1 < length (charBuffer d1)"
        using skip_ge nz_lt[OF s1(2), of ?q] val(3) by auto
      have "5 * (length (charBuffer d1) - Suc (?q + 1)) + 1 \<le> n"
        using F q q' s1(1) by (simp?; arith)
      from L[OF s1(2) q'(2) this] val(4) show False by contradiction
    qed
  qed
  have c4: "ParseElement (Suc n) this p d \<noteq> OutOfFuel"
    if T: "terminated (charBuffer d)" and B: "p < length (charBuffer d)"
      and F: "5 * (length (charBuffer d) - Suc p) + 3 \<le> Suc n"
    for this p d
  proof
    assume "ParseElement (Suc n) this p d = OutOfFuel"
    note oof = ParseElement_OOF[OF this]
    let ?d0 = "pool_update ElementPool Alloc d"
    have T0: "terminated (charBuffer ?d0)" and B0: "p < length (charBuffer ?d0)"
      using T B by simp_all
    have "5 * (length (charBuffer ?d0) - Suc p) + 2 \<le> n" using F by (simp?; arith)
    from E[OF T0 B0 this] oof show False by contradiction
  qed
  have c5: "JsonObject_ParseDeep (Suc n) this p d \<noteq> OutOfFuel"
    if T: "terminated (charBuffer d)" and B: "p < length (charBuffer d)"
      and F: "5 * (length (charBuffer d) - Suc p) + 4 \<le> Suc n"
    for this p d
  proof
    let ?p0 = "SkipWhiteSpace_loop (charBuffer d) p"
    have p0: "p \<le> ?p0" "?p0 < length (charBuffer d)" using skip_ge skip_lt[OF T B] by auto
    have F0: "5 * (length (charBuffer d) - Suc ?p0) + 3 \<le> n" using F p0 by (simp?; arith)
    assume "JsonObject_ParseDeep (Suc n) this p d = OutOfFuel"
    then show False
    proof (cases rule: JsonObject_ParseDeep_OOF)
      case elem
      from PE[OF T p0(2) F0] elem(2) show False by contradiction
    next
      case (loop r this1 d1)
      from same_shapeD[OF shape_PE[OF loop(2)] T]
      have s1: "length (charBuffer d1) = length (charBuffer d)" "terminated (charBuffer d1)"
        by auto
      show False
      proof (cases r)
        case None
        from F0 obtain k where "n = Suc k" by (cases n) auto
        with loop(3) None show False by simp
      next
        case (Some p1)
        note p1 = prog_PE[OF T p0(2) loop(2)[unfolded Some]]
        have "5 * (length (charBuffer d1) - Suc p1) + 1 \<le> n" using F0 p1 s1(1) by (simp?; arith)
        from OW[OF s1(2) _ this] p1 s1(1) loop(3) Some show False by simp
      qed
    qed
  qed
  have c6: "JsonObject_while (Suc n) this (Some p) d \<noteq> OutOfFuel"
    if T: "terminated (charBuffer d)" and B: "p < length (charBuffer d)"
      and F: "5 * (length (charBuffer d) - Suc p) + 1 \<le> Suc n"
    for this p d
  proof
    assume "JsonObject_while (Suc n) this (Some p) d = OutOfFuel"
    then show False
    proof (cases rule: JsonObject_while_OOF)
      case (elem pa)
      then have pa: "pa = p" by simp
      have B1: "p + 1 < length (charBuffer d)" using nz_lt[OF T, of p] elem(2) pa by simp
      have "5 * (length (charBuffer d) - Suc (p + 1)) + 3 \<le> n" using F B1 by (simp?; arith)
      from PE[OF T B1 this] elem(3) pa show False by simp
    next
      case (again pa p1 this1 d1)
      then have pa: "pa = p" by simp
      have B1: "p + 1 < length (charBuffer d)" using nz_lt[OF T, of p] again(2) pa by simp
      note p1 = prog_PE[OF T B1 again(3)[unfolded pa]]
      from same_shapeD[OF shape_PE[OF again(3)] T]
      have s1: "length (charBuffer d1) = length (charBuffer d)" "terminated (charBuffer d1)"
        by auto
      have "5 * (length (charBuffer d1) - Suc p1) + 1 \<le> n" using F B1 p1 s1(1) by (simp?; arith)
      from OW[OF s1(2) _ this] p1 s1(1) again(4) show False by simp
    qed
  qed
  have c7: "JsonArray_ParseDeep (Suc n) this p d \<noteq> OutOfFuel"
    if T: "terminated (charBuffer d)" and B: "p < length (charBuffer d)"
      and F: "5 * (length (charBuffer d) - Suc p) + 2 \<le> Suc n"
    for this p d
  proof
    let ?p0 = "SkipWhiteSpace_loop (charBuffer d) p"
    have p0: "p \<le> ?p0" "?p0 < length (charBuffer d)" using skip_ge skip_lt[OF T B] by auto
    have F0: "5 * (length (charBuffer d) - Suc ?p0) + 1 \<le> n" using F p0 by (simp?; arith)
    assume "JsonArray_ParseDeep (Suc n) this p d = OutOfFuel"
    then show False
    proof (cases rule: JsonArray_ParseDeep_OOF)
      case run
      from L[OF T p0(2) F0] run(2) show False by contradiction
    next
      case (loop q this1 d1)
      note q = prog_L[OF T p0(2) loop(2)]
      from same_shapeD[OF shape_L[OF loop(2)] T]
      have s1: "length (charBuffer d1) = length (charBuffer d)" "terminated (charBuffer d1)"
        by auto
      let ?q = "SkipWhiteSpace_loop (charBuffer d1) q"
      have q': "q \<le> ?q" "?q < length (charBuffer d1)"
        using skip_ge skip_lt[OF s1(2), of q] q s1(1) by auto
      have "5 * (length (charBuffer d1) - Suc ?q) + 1 \<le> n" using F0 q q' s1(1) by (simp?; arith)
      from AW[OF s1(2) q'(2) this] loop(3) show False by contradiction
    qed
  qed
  have c8: "JsonArray_while (Suc n) this p d \<noteq> OutOfFuel"
    if T: "terminated (charBuffer d)" and B: "p < length (charBuffer d)"
      and F: "5 * (length (charBuffer d) - Suc p) + 1 \<le> Suc n"
    for this p d
  proof
    assume "JsonArray_while (Suc n) this p d = OutOfFuel"
    then show False
    proof (cases rule: JsonArray_while_OOF)
      case run
      have B1: "p + 1 < length (charBuffer d)" using nz_lt[OF T, of p] run(1) by simp
      have "5 * (length (charBuffer d) - Suc (p + 1)) + 1 \<le> n" using F B1 by (simp?; arith)
      from L[OF T B1 this] run(2) show False by contradiction
    next
      case (again q this1 d1)
      have B1: "p + 1 < length (charBuffer d)" using nz_lt[OF T, of p] again(1) by simp
      note q = prog_L[OF T B1 again(2)]
      from same_shapeD[OF shape_L[OF again(2)] T]
      have s1: "length (charBuffer d1) = length (charBuffer d)" "terminated (charBuffer d1)"
        by auto
      let ?q = "SkipWhiteSpace_loop (charBuffer d1) q"
      have q': "q \<le> ?q" "?q < length (charBuffer d1)"
        using skip_ge skip_lt[OF s1(2), of q] q s1(1) by auto
      have "5 * (length (charBuffer d1) - Suc ?q) + 1 \<le> n" using F B1 q q' s1(1) by (simp?; arith)
      from AW[OF s1(2) q'(2) this] again(3) show False by contradiction
    qed
  qed
  have r1: "\<forall>this p d. terminated (charBuffer d) \<and> p < length (charBuffer d)
        \<and> 5 * (length (charBuffer d) - Suc p) + 1 \<le> Suc n
      \<longrightarrow> JsonNode_ParseDeep (Suc n) this p d \<noteq> OutOfFuel"
    using c1 by blast
  have r2: "\<forall>node p d. terminated (charBuffer d) \<and> p < length (charBuffer d)
        \<and> 0 < Suc n
        \<and> (kind node = JsonElement \<or> kind node = JsonObject \<or> kind node = JsonArray
             \<longrightarrow> 5 * (length (charBuffer d) - Suc p) + 5 \<le> Suc n)
      \<longrightarrow> ParseDeep (Suc n) node p d \<noteq> OutOfFuel"
    using c2 by blast
  have r3: "\<forall>this p d. terminated (charBuffer d) \<and> p < length (charBuffer d)
        \<and> 5 * (length (charBuffer d) - Suc p) + 2 \<le> Suc n
      \<longrightarrow> JsonElement_ParseDeep (Suc n) this p d \<noteq> OutOfFuel"
    using c3 by blast
  have r4: "\<forall>this p d. terminated (charBuffer d) \<and> p < length (charBuffer d)
        \<and> 5 * (length (charBuffer d) - Suc p) + 3 \<le> Suc n
      \<longrightarrow> ParseElement (Suc n) this p d \<noteq> OutOfFuel"
    using c4 by blast
  have r5: "\<forall>this p d. terminated (charBuffer d) \<and> p < length (charBuffer d)
        \<and> 5 * (length (charBuffer d) - Suc p) + 4 \<le> Suc n
      \<longrightarrow> JsonObject_ParseDeep (Suc n) this p d \<noteq> OutOfFuel"
    using c5 by blast
  have r6: "\<forall>this p d. terminated (charBuffer d) \<and> p < length (charBuffer d)
        \<and> 5 * (length (charBuffer d) - Suc p) + 1 \<le> Suc n
      \<longrightarrow> JsonObject_while (Suc n) this (Some p) d \<noteq> OutOfFuel"
    using c6 by blast
  have r7: "\<forall>this p d. terminated (charBuffer d) \<and> p < length (charBuffer d)
        \<and> 5 * (length (charBuffer d) - Suc p) + 2 \<le> Suc n
      \<longrightarrow> JsonArray_ParseDeep (Suc n) this p d \<noteq> OutOfFuel"
    using c7 by blast
  have r8: "\<forall>this p d. terminated (charBuffer d) \<and> p < length (charBuffer d)
        \<and> 5 * (length (charBuffer d) - Suc p) + 1 \<le> Suc n
      \<longrightarrow> JsonArray_while (Suc n) this p d \<noteq> OutOfFuel"
    using c8 by blast
  show ?case
    by (intro conjI; fact r1 r2 r3 r4 r5 r6 r7 r8)
qed


lemmas fuel_L = parse_fuel [THEN conjunct1, rule_format, OF conjI [OF _ conjI]]

lemma Parse_fuel_returns:
  assumes "Parse_budget json len \<le> n"
  shows "Parse_fuel n json len d \<noteq> OutOfFuel"
proof (cases json)
  case None
  then show ?thesis by (simp add: Parse_fuel_def Let_def)
next
  case (Some str)
  define l where "l = (case len of None \<Rightarrow> strlen str | Some l \<Rightarrow> l)"
  define d1 where "d1 = InitDocument ((DeleteChildren (docChildren d) d)\<lparr>docChildren := []\<rparr>)"
  define d2 where "d2 = d1\<lparr>charBuffer := take l (str @ [NUL]) @ [NUL]\<rparr>"
  from assms Some have n: "5 * l + 1 \<le> n" by (simp add: Parse_budget_def l_def)
  show ?thesis
  proof (cases "length str + 1 < l")
    case True
    then show ?thesis
      using Some by (simp add: Parse_fuel_def Let_def l_def[symmetric])
  next
    case False
    then have len: "length (charBuffer d2) = l + 1" by (simp add: d2_def)
    have T: "terminated (charBuffer d2)" by (simp add: d2_def terminated_def)
    have B: "0 < length (charBuffer d2)" using len by simp
    have "5 * (length (charBuffer d2) - Suc 0) + 1 \<le> n" using n len by simp
    from fuel_L[OF T B this]
    have "JsonNode_ParseDeep n [] 0
            ((InitDocument ((DeleteChildren (docChildren d) d)\<lparr>docChildren := []\<rparr>))
               \<lparr>charBuffer := take l (str @ [NUL]) @ [NUL]\<rparr>) \<noteq> OutOfFuel"
      unfolding d2_def d1_def .
    then show ?thesis
      using Some False
      by (simp add: Parse_fuel_def Let_def l_def[symmetric] split: run.splits)
  qed
qed

theorem Parse_returns: "Parse json len d \<noteq> OutOfFuel"
  unfolding Parse_def by (rule Parse_fuel_returns) simp



subsection \<open>The first call of \<^verbatim>\<open>SetError\<close> wins\<close>

lemma error_slot_fields:
  "error_slot (pool_update p f d) = error_slot d"
  "error_slot (DeleteNode nd d) = error_slot d"
  "error_slot (d\<lparr>charBuffer := b\<rparr>) = error_slot d"
  "error_slot (d\<lparr>docChildren := cs\<rparr>) = error_slot d"
  using DeleteNode_fields(1)[of nd d] by (simp_all add: error_slot_def)

lemma Identify_slot: "Identify d json nd0 = (j, nd, d1) \<Longrightarrow> error_slot d1 = error_slot d"
  using Identify_state[of d json nd0 j nd d1] by (auto simp: error_slot_def)

lemma recorded_same: "error_slot d' = error_slot d \<Longrightarrow> recorded d [] d'"
  by (simp add: recorded_def slot_after_def)

lemma recorded_trans:
  assumes "recorded a e1 b" and "recorded b e2 c"
  shows "recorded a (e1 @ e2) c"
proof (cases e1)
  case Nil
  with assms show ?thesis
    by (cases e2) (auto simp: recorded_def slot_after_def error_slot_def)
next
  case (Cons x xs)
  with assms show ?thesis
    by (cases e2) (auto simp: recorded_def slot_after_def error_slot_def)
qed

lemma recorded_post: "recorded a e b \<Longrightarrow> error_slot c = error_slot b \<Longrightarrow> recorded a e c"
  by (simp add: recorded_def)

lemma recorded_pre: "recorded a e b \<Longrightarrow> error_slot a' = error_slot a \<Longrightarrow> recorded a' e b"
  by (simp add: recorded_def)

lemma recorded_SetError:
  "e \<noteq> JSON_NO_ERROR \<Longrightarrow> recorded d [(e, s1, s2)] (SetError e s1 s2 d)"
  by (simp add: recorded_def slot_after_def SetError_def error_slot_def)

lemma recorded_fail:
  assumes "recorded a e1 b" and "error_slot c = error_slot b" and "e \<noteq> JSON_NO_ERROR"
  shows "recorded a (e1 @ [(e, s1, s2)]) (SetError e s1 s2 c)"
  by (rule recorded_trans[OF recorded_post[OF assms(1,2)] recorded_SetError[OF assms(3)]])

lemma recorded_step:
  assumes "recorded a e1 b" and "error_slot b' = error_slot b" and "recorded b' e2 c"
  shows "recorded a (e1 @ e2) c"
  by (rule recorded_trans[OF recorded_post[OF assms(1,2)] assms(3)])

lemma JsonReserved_ParseDeep_logged:
  assumes "JsonReserved_ParseDeep node json d = (r, t, d')"
  shows "\<exists>ext. JsonReserved_ParseDeep_log node json d lg = (r, t, d', lg @ ext)
              \<and> recorded d ext d'"
proof (cases "r = None")
  case True
  with assms have "JsonReserved_ParseDeep_log node json d lg
      = (r, t, d', lg @ [(JSON_ERROR_PARSING_RESERVED, None, None)])"
    and "d' = SetError JSON_ERROR_PARSING_RESERVED None None d"
    by (auto simp: JsonReserved_ParseDeep_def JsonReserved_ParseDeep_log_def logged_def
             split: if_splits)
  then show ?thesis using recorded_SetError[of JSON_ERROR_PARSING_RESERVED d None None]
    by auto
next
  case False
  with assms have "JsonReserved_ParseDeep_log node json d lg = (r, t, d', lg @ [])"
    and "d' = d"
    by (auto simp: JsonReserved_ParseDeep_def JsonReserved_ParseDeep_log_def split: if_splits)
  then show ?thesis using recorded_same[of d d] by blast
qed

lemma JsonNumber_ParseDeep_logged:
  assumes "JsonNumber_ParseDeep node json d = (r, t, d')"
  shows "\<exists>ext. JsonNumber_ParseDeep_log node json d lg = (r, t, d', lg @ ext)
              \<and> recorded d ext d'"
proof (cases "r = None")
  case True
  with assms have "JsonNumber_ParseDeep_log node json d lg
      = (r, t, d', lg @ [(JSON_ERROR_OBJECT_MISMATCH, None, None)])"
    and "d' = SetError JSON_ERROR_OBJECT_MISMATCH None None d"
    by (auto simp: JsonNumber_ParseDeep_def JsonNumber_ParseDeep_log_def logged_def Let_def
             split: if_splits)
  then show ?thesis using recorded_SetError[of JSON_ERROR_OBJECT_MISMATCH d None None]
    by auto
next
  case False
  with assms have "JsonNumber_ParseDeep_log node json d lg = (r, t, d', lg @ [])"
    and "d' = d"
    by (auto simp: JsonNumber_ParseDeep_def JsonNumber_ParseDeep_log_def Let_def
             split: if_splits)
  then show ?thesis using recorded_same[of d d] by blast
qed

lemma JsonString_ParseDeep_logged:
  assumes "JsonString_ParseDeep node json d = Ret (r, t, d')"
  shows "\<exists>ext. JsonString_ParseDeep_log node json d lg = Ret (r, t, d', lg @ ext)
              \<and> recorded d ext d'"
  using assms
proof (cases rule: JsonString_ParseDeep_cases)
  case (ok ptr)
  then have "JsonString_ParseDeep_log node json d lg = Ret (r, t, d', lg @ [])"
    by (simp add: JsonString_ParseDeep_log_def)
  moreover have "recorded d [] d'"
    unfolding ok(5) by (rule recorded_same) (rule error_slot_fields)
  ultimately show ?thesis by blast
next
  case (fail ptr)
  then have "JsonString_ParseDeep_log node json d lg
      = Ret (r, t, d', lg @ [(JSON_ERROR_PARSING_STRING, None, None)])"
    by (simp add: JsonString_ParseDeep_log_def logged_def)
  moreover have "recorded d [(JSON_ERROR_PARSING_STRING, None, None)] d'"
    unfolding fail(5) by (rule recorded_SetError) simp
  ultimately show ?thesis by blast
qed

lemma parse_logged:
  "(\<forall>this json d r t d' lg. JsonNode_ParseDeep n this json d = Ret (r, t, d')
      \<longrightarrow> (\<exists>ext. JsonNode_ParseDeep_log n this json d lg = Ret (r, t, d', lg @ ext) \<and> recorded d ext d'))
 \<and> (\<forall>node json d r t d' lg. ParseDeep n node json d = Ret (r, t, d')
      \<longrightarrow> (\<exists>ext. ParseDeep_log n node json d lg = Ret (r, t, d', lg @ ext) \<and> recorded d ext d'))
 \<and> (\<forall>this json d r t d' lg. JsonElement_ParseDeep n this json d = Ret (r, t, d')
      \<longrightarrow> (\<exists>ext. JsonElement_ParseDeep_log n this json d lg = Ret (r, t, d', lg @ ext) \<and> recorded d ext d'))
 \<and> (\<forall>this json d r t d' lg. ParseElement n this json d = Ret (r, t, d')
      \<longrightarrow> (\<exists>ext. ParseElement_log n this json d lg = Ret (r, t, d', lg @ ext) \<and> recorded d ext d'))
 \<and> (\<forall>this json d r t d' lg. JsonObject_ParseDeep n this json d = Ret (r, t, d')
      \<longrightarrow> (\<exists>ext. JsonObject_ParseDeep_log n this json d lg = Ret (r, t, d', lg @ ext) \<and> recorded d ext d'))
 \<and> (\<forall>this json d r t d' lg. JsonObject_while n this json d = Ret (r, t, d')
      \<longrightarrow> (\<exists>ext. JsonObject_while_log n this json d lg = Ret (r, t, d', lg @ ext) \<and> recorded d ext d'))
 \<and> (\<forall>this json d r t d' lg. JsonArray_ParseDeep n this json d = Ret (r, t, d')
      \<longrightarrow> (\<exists>ext. JsonArray_ParseDeep_log n this json d lg = Ret (r, t, d', lg @ ext) \<and> recorded d ext d'))
 \<and> (\<forall>this json d r t d' lg. JsonArray_while n this json d = Ret (r, t, d')
      \<longrightarrow> (\<exists>ext. JsonArray_while_log n this json d lg = Ret (r, t, d', lg @ ext) \<and> recorded d ext d'))"
proof (induction n)
  case 0
  show ?case by simp
next
  case (Suc n)
  note L = Suc.IH [THEN conjunct1, rule_format]
    and D = Suc.IH [THEN conjunct2, THEN conjunct1, rule_format]
    and E = Suc.IH [THEN conjunct2, THEN conjunct2, THEN conjunct1, rule_format]
    and PE = Suc.IH [THEN conjunct2, THEN conjunct2, THEN conjunct2, THEN conjunct1, rule_format]
    and OB = Suc.IH [THEN conjunct2, THEN conjunct2, THEN conjunct2, THEN conjunct2, THEN conjunct1, rule_format]
    and OW = Suc.IH [THEN conjunct2, THEN conjunct2, THEN conjunct2, THEN conjunct2, THEN conjunct2, THEN conjunct1, rule_format]
    and AR = Suc.IH [THEN conjunct2, THEN conjunct2, THEN conjunct2, THEN conjunct2, THEN conjunct2, THEN conjunct2, THEN conjunct1, rule_format]
    and AW = Suc.IH [THEN conjunct2, THEN conjunct2, THEN conjunct2, THEN conjunct2, THEN conjunct2, THEN conjunct2, THEN conjunct2, rule_format]
  have c1: "\<exists>ext. JsonNode_ParseDeep_log (Suc n) this json d lg = Ret (r, t, d', lg @ ext) \<and> recorded d ext d'"
    if run: "JsonNode_ParseDeep (Suc n) this json d = Ret (r, t, d')" for this json d r t d' lg
    using run
  proof (cases rule: JsonNode_ParseDeep_SucE)
    case eof
    then have "JsonNode_ParseDeep_log (Suc n) this json d lg = Ret (r, t, d', lg @ [])"
      by simp
    moreover have "recorded d [] d'" using eof by (simp add: recorded_same)
    ultimately show ?thesis by blast
  next
    case (none j d1)
    then have "JsonNode_ParseDeep_log (Suc n) this json d lg = Ret (r, t, d', lg @ [])"
      by simp
    moreover have "recorded d [] d'"
      using none Identify_slot[OF none(2)] by (simp add: recorded_same)
    ultimately show ?thesis by blast
  next
    case (fail j nd d1 nd' d2)
    from D[OF fail(3), of lg] obtain e1 where
      a: "ParseDeep_log n nd j d1 lg = Ret (None, nd', d2, lg @ e1)" and b: "recorded d1 e1 d2"
      by blast
    have "JsonNode_ParseDeep_log (Suc n) this json d lg
            = Ret (r, t, d', lg @ e1 @ [(JSON_ERROR_PARSING, None, None)])"
      using fail(1,2,4,5,6) a by (simp add: SkipWhiteSpace_def InsertEndChild_def CreatElement_def logged_def Let_def
                 del: pool_update.simps DeleteNode.simps)
    moreover have "recorded d (e1 @ [(JSON_ERROR_PARSING, None, None)]) d'"
      unfolding fail(6)
      by (rule recorded_fail[OF recorded_pre[OF b Identify_slot[OF fail(2), symmetric]]])
         (simp_all add: error_slot_fields del: pool_update.simps DeleteNode.simps)
    ultimately show ?thesis by blast
  next
    case (step j nd d1 q nd' d2)
    from D[OF step(3), of lg] obtain e1 where
      a: "ParseDeep_log n nd j d1 lg = Ret (Some q, nd', d2, lg @ e1)" and b: "recorded d1 e1 d2"
      by blast
    from L[OF step(4), of "lg @ e1"] obtain e2 where
      a2: "JsonNode_ParseDeep_log n (this @ [nd']) (SkipWhiteSpace_loop (charBuffer d2) q)
             (pool_update (memPool nd') SetTracked d2) (lg @ e1) = Ret (r, t, d', (lg @ e1) @ e2)"
      and b2: "recorded (pool_update (memPool nd') SetTracked d2) e2 d'"
      by blast
    have "JsonNode_ParseDeep_log (Suc n) this json d lg = Ret (r, t, d', lg @ e1 @ e2)"
      using step(1,2) a a2 by (simp add: SkipWhiteSpace_def InsertEndChild_def CreatElement_def logged_def Let_def
                 del: pool_update.simps DeleteNode.simps)
    moreover have "recorded d (e1 @ e2) d'"
      by (rule recorded_step[OF recorded_pre[OF b Identify_slot[OF step(2), symmetric]] _ b2])
         (rule error_slot_fields)
    ultimately show ?thesis by blast
  qed
  have c2: "\<exists>ext. ParseDeep_log (Suc n) node json d lg = Ret (r, t, d', lg @ ext) \<and> recorded d ext d'"
    if run: "ParseDeep (Suc n) node json d = Ret (r, t, d')" for node json d r t d' lg
    using run
  proof (cases rule: ParseDeep_SucE)
    case (reserved ty)
    from JsonReserved_ParseDeep_logged[OF reserved(2), of lg] reserved(1)
    show ?thesis by auto
  next
    case (number v)
    from JsonNumber_ParseDeep_logged[OF number(2), of lg] number(1)
    show ?thesis by auto
  next
    case (string sp)
    from JsonString_ParseDeep_logged[OF string(2), of lg] string(1)
    show ?thesis by auto
  next
    case (element cs)
    from E[OF element(2), of lg] element(1,3) show ?thesis by auto
  next
    case (object cs)
    from OB[OF object(2), of lg] object(1,3) show ?thesis by auto
  next
    case (array cs)
    from AR[OF array(2), of lg] array(1,3) show ?thesis by auto
  qed
  have c3: "\<exists>ext. JsonElement_ParseDeep_log (Suc n) this json d lg = Ret (r, t, d', lg @ ext) \<and> recorded d ext d'"
    if run: "JsonElement_ParseDeep (Suc n) this json d = Ret (r, t, d')" for this json d r t d' lg
    using run
  proof (cases rule: JsonElement_ParseDeep_SucE)
    case noquote
    then have "JsonElement_ParseDeep_log (Suc n) this json d lg
                 = Ret (r, t, d', lg @ [(JSON_ERROR_PARSING_ELEMENT, None, None)])"
      by (simp add: SkipWhiteSpace_def InsertEndChild_def CreatElement_def logged_def Let_def
                 del: pool_update.simps DeleteNode.simps)
    moreover have "recorded d [(JSON_ERROR_PARSING_ELEMENT, None, None)] d'"
      unfolding noquote(4) by (rule recorded_SetError) simp
    ultimately show ?thesis by blast
  next
    case (key_fail this1 d1)
    from L[OF key_fail(2), of lg] obtain e1 where
      a: "JsonNode_ParseDeep_log n this json d lg = Ret (None, this1, d1, lg @ e1)"
      and b: "recorded d e1 d1"
      by blast
    have "JsonElement_ParseDeep_log (Suc n) this json d lg
            = Ret (r, t, d', lg @ e1 @ [(JSON_ERROR_PARSING_ELEMENT, None, None)])"
      using key_fail(1,3,4,5) a by (simp add: SkipWhiteSpace_def InsertEndChild_def CreatElement_def logged_def Let_def
                 del: pool_update.simps DeleteNode.simps)
    moreover have "recorded d (e1 @ [(JSON_ERROR_PARSING_ELEMENT, None, None)]) d'"
      unfolding key_fail(5) by (rule recorded_fail[OF b refl]) simp
    ultimately show ?thesis by blast
  next
    case (nocolon q this1 d1)
    from L[OF nocolon(2), of lg] obtain e1 where
      a: "JsonNode_ParseDeep_log n this json d lg = Ret (Some q, this1, d1, lg @ e1)"
      and b: "recorded d e1 d1"
      by blast
    have "JsonElement_ParseDeep_log (Suc n) this json d lg
            = Ret (r, t, d', lg @ e1 @ [(JSON_ERROR_PARSING_ELEMENT, None, None)])"
      using nocolon(1,3,4,5,6) a by (simp add: SkipWhiteSpace_def InsertEndChild_def CreatElement_def logged_def Let_def
                 del: pool_update.simps DeleteNode.simps)
    moreover have "recorded d (e1 @ [(JSON_ERROR_PARSING_ELEMENT, None, None)]) d'"
      unfolding nocolon(6) by (rule recorded_fail[OF b refl]) simp
    ultimately show ?thesis by blast
  next
    case (value_fail q this1 d1 this2 d2)
    from L[OF value_fail(2), of lg] obtain e1 where
      a: "JsonNode_ParseDeep_log n this json d lg = Ret (Some q, this1, d1, lg @ e1)"
      and b: "recorded d e1 d1"
      by blast
    from L[OF value_fail(4), of "lg @ e1"] obtain e2 where
      a2: "JsonNode_ParseDeep_log n this1 (SkipWhiteSpace_loop (charBuffer d1) q + 1) d1
             (lg @ e1) = Ret (None, this2, d2, (lg @ e1) @ e2)"
      and b2: "recorded d1 e2 d2"
      by blast
    have "JsonElement_ParseDeep_log (Suc n) this json d lg
            = Ret (r, t, d', lg @ (e1 @ e2) @ [(JSON_ERROR_PARSING_ELEMENT, None, None)])"
      using value_fail(1,3,5,6,7) a a2 by (simp add: SkipWhiteSpace_def InsertEndChild_def CreatElement_def logged_def Let_def
                 del: pool_update.simps DeleteNode.simps)
    moreover have "recorded d ((e1 @ e2) @ [(JSON_ERROR_PARSING_ELEMENT, None, None)]) d'"
      unfolding value_fail(7) by (rule recorded_fail[OF recorded_trans[OF b b2] refl]) simp
    ultimately show ?thesis by blast
  next
    case (ok q this1 d1 q2)
    from L[OF ok(2), of lg] obtain e1 where
      a: "JsonNode_ParseDeep_log n this json d lg = Ret (Some q, this1, d1, lg @ e1)"
      and b: "recorded d e1 d1"
      by blast
    from L[OF ok(4), of "lg @ e1"] obtain e2 where
      a2: "JsonNode_ParseDeep_log n this1 (SkipWhiteSpace_loop (charBuffer d1) q + 1) d1
             (lg @ e1) = Ret (Some q2, t, d', (lg @ e1) @ e2)"
      and b2: "recorded d1 e2 d'"
      by blast
    have "JsonElement_ParseDeep_log (Suc n) this json d lg = Ret (r, t, d', lg @ e1 @ e2)"
      using ok(1,3,5) a a2 by (simp add: SkipWhiteSpace_def InsertEndChild_def CreatElement_def logged_def Let_def
                 del: pool_update.simps DeleteNode.simps)
    moreover have "recorded d (e1 @ e2) d'" by (rule recorded_trans[OF b b2])
    ultimately show ?thesis by blast
  qed
  have c4: "\<exists>ext. ParseElement_log (Suc n) this json d lg = Ret (r, t, d', lg @ ext) \<and> recorded d ext d'"
    if run: "ParseElement (Suc n) this json d = Ret (r, t, d')" for this json d r t d' lg
    using run
  proof (cases rule: ParseElement_SucE)
    case (fail cs d1)
    from E[OF fail(1), of lg] obtain e1 where
      a: "JsonElement_ParseDeep_log n [] json (pool_update ElementPool Alloc d) lg
            = Ret (None, cs, d1, lg @ e1)"
      and b: "recorded (pool_update ElementPool Alloc d) e1 d1"
      by blast
    have "ParseElement_log (Suc n) this json d lg
            = Ret (r, t, d', lg @ e1 @ [(JSON_ERROR_PARSING_ELEMENT, None, None)])"
      using fail(2,3,4) a by (simp add: SkipWhiteSpace_def InsertEndChild_def CreatElement_def logged_def Let_def
                 del: pool_update.simps DeleteNode.simps)
    moreover have "recorded d (e1 @ [(JSON_ERROR_PARSING_ELEMENT, None, None)]) d'"
      unfolding fail(4)
      by (rule recorded_fail[OF recorded_pre[OF b]])
         (simp_all add: error_slot_fields del: pool_update.simps DeleteNode.simps)
    ultimately show ?thesis by blast
  next
    case (ok q cs d1)
    from E[OF ok(1), of lg] obtain e1 where
      a: "JsonElement_ParseDeep_log n [] json (pool_update ElementPool Alloc d) lg
            = Ret (Some q, cs, d1, lg @ e1)"
      and b: "recorded (pool_update ElementPool Alloc d) e1 d1"
      by blast
    have "ParseElement_log (Suc n) this json d lg = Ret (r, t, d', lg @ e1)"
      using ok(2,3,4) a by (simp add: SkipWhiteSpace_def InsertEndChild_def CreatElement_def logged_def Let_def
                 del: pool_update.simps DeleteNode.simps)
    moreover have "recorded d e1 d'"
      unfolding ok(4)
      by (rule recorded_post[OF recorded_pre[OF b]])
         (simp_all add: error_slot_fields del: pool_update.simps)
    ultimately show ?thesis by blast
  qed
  have c5: "\<exists>ext. JsonObject_ParseDeep_log (Suc n) this json d lg = Ret (r, t, d', lg @ ext) \<and> recorded d ext d'"
    if run: "JsonObject_ParseDeep (Suc n) this json d = Ret (r, t, d')" for this json d r t d' lg
    using run
  proof (cases rule: JsonObject_ParseDeep_SucE)
    case eof
    then have "JsonObject_ParseDeep_log (Suc n) this json d lg
                 = Ret (r, t, d', lg @ [(JSON_ERROR_OBJECT_MISMATCH, None, None)])"
      by (simp add: SkipWhiteSpace_def InsertEndChild_def CreatElement_def logged_def Let_def
                 del: pool_update.simps DeleteNode.simps)
    moreover have "recorded d [(JSON_ERROR_OBJECT_MISMATCH, None, None)] d'"
      unfolding eof(4) by (rule recorded_SetError) simp
    ultimately show ?thesis by blast
  next
    case empty
    then have "JsonObject_ParseDeep_log (Suc n) this json d lg = Ret (r, t, d', lg @ [])"
      by (simp add: SkipWhiteSpace_def InsertEndChild_def CreatElement_def logged_def Let_def
                 del: pool_update.simps DeleteNode.simps)
    moreover have "recorded d [] d'" using empty by (simp add: recorded_same)
    ultimately show ?thesis by blast
  next
    case (elems r1 this1 d1)
    from PE[OF elems(3), of lg] obtain e1 where
      a: "ParseElement_log n this (SkipWhiteSpace_loop (charBuffer d) json) d lg
            = Ret (r1, this1, d1, lg @ e1)"
      and b: "recorded d e1 d1"
      by blast
    from OW[OF elems(4), of "lg @ e1"] obtain e2 where
      a2: "JsonObject_while_log n this1 r1 d1 (lg @ e1) = Ret (r, t, d', (lg @ e1) @ e2)"
      and b2: "recorded d1 e2 d'"
      by blast
    have "JsonObject_ParseDeep_log (Suc n) this json d lg = Ret (r, t, d', lg @ e1 @ e2)"
      using elems(1,2) a a2 by (simp add: SkipWhiteSpace_def InsertEndChild_def CreatElement_def logged_def Let_def
                 del: pool_update.simps DeleteNode.simps)
    moreover have "recorded d (e1 @ e2) d'" by (rule recorded_trans[OF b b2])
    ultimately show ?thesis by blast
  qed
  have c6: "\<exists>ext. JsonObject_while_log (Suc n) this json d lg = Ret (r, t, d', lg @ ext) \<and> recorded d ext d'"
    if run: "JsonObject_while (Suc n) this json d = Ret (r, t, d')" for this json d r t d' lg
    using run
  proof (cases rule: JsonObject_while_SucE)
    case (elem_fail p this1 d1)
    from PE[OF elem_fail(3), of lg] obtain e1 where
      a: "ParseElement_log n this (p + 1) d lg = Ret (None, this1, d1, lg @ e1)"
      and b: "recorded d e1 d1"
      by blast
    have "JsonObject_while_log (Suc n) this json d lg
            = Ret (r, t, d', lg @ e1 @ [(JSON_ERROR_OBJECT_MISMATCH, None, None)])"
      using elem_fail(1,2,4,5,6) a by (simp add: SkipWhiteSpace_def InsertEndChild_def CreatElement_def logged_def Let_def
                 del: pool_update.simps DeleteNode.simps)
    moreover have "recorded d (e1 @ [(JSON_ERROR_OBJECT_MISMATCH, None, None)]) d'"
      unfolding elem_fail(6) by (rule recorded_fail[OF b refl]) simp
    ultimately show ?thesis by blast
  next
    case (again p p1 this1 d1)
    from PE[OF again(3), of lg] obtain e1 where
      a: "ParseElement_log n this (p + 1) d lg = Ret (Some p1, this1, d1, lg @ e1)"
      and b: "recorded d e1 d1"
      by blast
    from OW[OF again(4), of "lg @ e1"] obtain e2 where
      a2: "JsonObject_while_log n this1 (Some p1) d1 (lg @ e1) = Ret (r, t, d', (lg @ e1) @ e2)"
      and b2: "recorded d1 e2 d'"
      by blast
    have "JsonObject_while_log (Suc n) this json d lg = Ret (r, t, d', lg @ e1 @ e2)"
      using again(1,2) a a2 by (simp add: SkipWhiteSpace_def InsertEndChild_def CreatElement_def logged_def Let_def
                 del: pool_update.simps DeleteNode.simps)
    moreover have "recorded d (e1 @ e2) d'" by (rule recorded_trans[OF b b2])
    ultimately show ?thesis by blast
  next
    case (close p)
    then have "JsonObject_while_log (Suc n) this json d lg = Ret (r, t, d', lg @ [])"
      by (simp add: SkipWhiteSpace_def InsertEndChild_def CreatElement_def logged_def Let_def
                 del: pool_update.simps DeleteNode.simps)
    moreover have "recorded d [] d'" using close by (simp add: recorded_same)
    ultimately show ?thesis by blast
  next
    case (bad p)
    then have "JsonObject_while_log (Suc n) this json d lg
                 = Ret (r, t, d', lg @ [(JSON_ERROR_OBJECT_MISMATCH, None, None)])"
      by (simp add: SkipWhiteSpace_def InsertEndChild_def CreatElement_def logged_def Let_def
                 del: pool_update.simps DeleteNode.simps)
    moreover have "recorded d [(JSON_ERROR_OBJECT_MISMATCH, None, None)] d'"
      unfolding bad(6) by (rule recorded_SetError) simp
    ultimately show ?thesis by blast
  qed
  have c7: "\<exists>ext. JsonArray_ParseDeep_log (Suc n) this json d lg = Ret (r, t, d', lg @ ext) \<and> recorded d ext d'"
    if run: "JsonArray_ParseDeep (Suc n) this json d = Ret (r, t, d')" for this json d r t d' lg
    using run
  proof (cases rule: JsonArray_ParseDeep_SucE)
    case eof
    then have "JsonArray_ParseDeep_log (Suc n) this json d lg
                 = Ret (r, t, d', lg @ [(JSON_ERROR_ARRAY_MISMATCH, None, None)])"
      by (simp add: SkipWhiteSpace_def InsertEndChild_def CreatElement_def logged_def Let_def
                 del: pool_update.simps DeleteNode.simps)
    moreover have "recorded d [(JSON_ERROR_ARRAY_MISMATCH, None, None)] d'"
      unfolding eof(4) by (rule recorded_SetError) simp
    ultimately show ?thesis by blast
  next
    case empty
    then have "JsonArray_ParseDeep_log (Suc n) this json d lg = Ret (r, t, d', lg @ [])"
      by (simp add: SkipWhiteSpace_def InsertEndChild_def CreatElement_def logged_def Let_def
                 del: pool_update.simps DeleteNode.simps)
    moreover have "recorded d [] d'" using empty by (simp add: recorded_same)
    ultimately show ?thesis by blast
  next
    case run_fail
    from L[OF run_fail(3), of lg] obtain e1 where
      a: "JsonNode_ParseDeep_log n this (SkipWhiteSpace_loop (charBuffer d) json) d lg
            = Ret (None, t, d', lg @ e1)"
      and b: "recorded d e1 d'"
      by blast
    have "JsonArray_ParseDeep_log (Suc n) this json d lg = Ret (r, t, d', lg @ e1)"
      using run_fail(1,2,4) a by (simp add: SkipWhiteSpace_def InsertEndChild_def CreatElement_def logged_def Let_def
                 del: pool_update.simps DeleteNode.simps)
    with b show ?thesis by blast
  next
    case (run q this1 d1)
    from L[OF run(3), of lg] obtain e1 where
      a: "JsonNode_ParseDeep_log n this (SkipWhiteSpace_loop (charBuffer d) json) d lg
            = Ret (Some q, this1, d1, lg @ e1)"
      and b: "recorded d e1 d1"
      by blast
    from AW[OF run(4), of "lg @ e1"] obtain e2 where
      a2: "JsonArray_while_log n this1 (SkipWhiteSpace_loop (charBuffer d1) q) d1 (lg @ e1)
             = Ret (r, t, d', (lg @ e1) @ e2)"
      and b2: "recorded d1 e2 d'"
      by blast
    have "JsonArray_ParseDeep_log (Suc n) this json d lg = Ret (r, t, d', lg @ e1 @ e2)"
      using run(1,2) a a2 by (simp add: SkipWhiteSpace_def InsertEndChild_def CreatElement_def logged_def Let_def
                 del: pool_update.simps DeleteNode.simps)
    moreover have "recorded d (e1 @ e2) d'" by (rule recorded_trans[OF b b2])
    ultimately show ?thesis by blast
  qed
  have c8: "\<exists>ext. JsonArray_while_log (Suc n) this json d lg = Ret (r, t, d', lg @ ext) \<and> recorded d ext d'"
    if run: "JsonArray_while (Suc n) this json d = Ret (r, t, d')" for this json d r t d' lg
    using run
  proof (cases rule: JsonArray_while_SucE)
    case (run_fail this1 d1)
    from L[OF run_fail(2), of lg] obtain e1 where
      a: "JsonNode_ParseDeep_log n this (json + 1) d lg = Ret (None, this1, d1, lg @ e1)"
      and b: "recorded d e1 d1"
      by blast
    have "JsonArray_while_log (Suc n) this json d lg
            = Ret (r, t, d', lg @ e1 @ [(JSON_ERROR_ARRAY_MISMATCH, None, None)])"
      using run_fail(1,3,4,5) a by (simp add: SkipWhiteSpace_def InsertEndChild_def CreatElement_def logged_def Let_def
                 del: pool_update.simps DeleteNode.simps)
    moreover have "recorded d (e1 @ [(JSON_ERROR_ARRAY_MISMATCH, None, None)]) d'"
      unfolding run_fail(5) by (rule recorded_fail[OF b refl]) simp
    ultimately show ?thesis by blast
  next
    case (eof q this1 d1)
    from L[OF eof(2), of lg] obtain e1 where
      a: "JsonNode_ParseDeep_log n this (json + 1) d lg = Ret (Some q, this1, d1, lg @ e1)"
      and b: "recorded d e1 d1"
      by blast
    have "JsonArray_while_log (Suc n) this json d lg
            = Ret (r, t, d', lg @ e1 @ [(JSON_ERROR_ARRAY_MISMATCH, None, None)])"
      using eof(1,3,4,5,6) a by (simp add: SkipWhiteSpace_def InsertEndChild_def CreatElement_def logged_def Let_def
                 del: pool_update.simps DeleteNode.simps)
    moreover have "recorded d (e1 @ [(JSON_ERROR_ARRAY_MISMATCH, None, None)]) d'"
      unfolding eof(6) by (rule recorded_fail[OF b refl]) simp
    ultimately show ?thesis by blast
  next
    case (again q this1 d1)
    from L[OF again(2), of lg] obtain e1 where
      a: "JsonNode_ParseDeep_log n this (json + 1) d lg = Ret (Some q, this1, d1, lg @ e1)"
      and b: "recorded d e1 d1"
      by blast
    from AW[OF again(4), of "lg @ e1"] obtain e2 where
      a2: "JsonArray_while_log n this1 (SkipWhiteSpace_loop (charBuffer d1) q) d1 (lg @ e1)
             = Ret (r, t, d', (lg @ e1) @ e2)"
      and b2: "recorded d1 e2 d'"
      by blast
    have "JsonArray_while_log (Suc n) this json d lg = Ret (r, t, d', lg @ e1 @ e2)"
      using again(1,3) a a2 by (simp add: SkipWhiteSpace_def InsertEndChild_def CreatElement_def logged_def Let_def
                 del: pool_update.simps DeleteNode.simps)
    moreover have "recorded d (e1 @ e2) d'" by (rule recorded_trans[OF b b2])
    ultimately show ?thesis by blast
  next
    case close
    then have "JsonArray_while_log (Suc n) this json d lg = Ret (r, t, d', lg @ [])"
      by (simp add: SkipWhiteSpace_def InsertEndChild_def CreatElement_def logged_def Let_def
                 del: pool_update.simps DeleteNode.simps)
    moreover have "recorded d [] d'" using close by (simp add: recorded_same)
    ultimately show ?thesis by blast
  next
    case bad
    then have "JsonArray_while_log (Suc n) this json d lg
                 = Ret (r, t, d', lg @ [(JSON_ERROR_ARRAY_MISMATCH, None, None)])"
      by (simp add: SkipWhiteSpace_def InsertEndChild_def CreatElement_def logged_def Let_def
                 del: pool_update.simps DeleteNode.simps)
    moreover have "recorded d [(JSON_ERROR_ARRAY_MISMATCH, None, None)] d'"
      unfolding bad(5) by (rule recorded_SetError) simp
    ultimately show ?thesis by blast
  qed
  have r1: "\<forall>this json d r t d' lg. JsonNode_ParseDeep (Suc n) this json d = Ret (r, t, d')
      \<longrightarrow> (\<exists>ext. JsonNode_ParseDeep_log (Suc n) this json d lg = Ret (r, t, d', lg @ ext) \<and> recorded d ext d')"
    using c1 by blast
  have r2: "\<forall>node json d r t d' lg. ParseDeep (Suc n) node json d = Ret (r, t, d')
      \<longrightarrow> (\<exists>ext. ParseDeep_log (Suc n) node json d lg = Ret (r, t, d', lg @ ext) \<and> recorded d ext d')"
    using c2 by blast
  have r3: "\<forall>this json d r t d' lg. JsonElement_ParseDeep (Suc n) this json d = Ret (r, t, d')
      \<longrightarrow> (\<exists>ext. JsonElement_ParseDeep_log (Suc n) this json d lg = Ret (r, t, d', lg @ ext) \<and> recorded d ext d')"
    using c3 by blast
  have r4: "\<forall>this json d r t d' lg. ParseElement (Suc n) this json d = Ret (r, t, d')
      \<longrightarrow> (\<exists>ext. ParseElement_log (Suc n) this json d lg = Ret (r, t, d', lg @ ext) \<and> recorded d ext d')"
    using c4 by blast
  have r5: "\<forall>this json d r t d' lg. JsonObject_ParseDeep (Suc n) this json d = Ret (r, t, d')
      \<longrightarrow> (\<exists>ext. JsonObject_ParseDeep_log (Suc n) this json d lg = Ret (r, t, d', lg @ ext) \<and> recorded d ext d')"
    using c5 by blast
  have r6: "\<forall>this json d r t d' lg. JsonObject_while (Suc n) this json d = Ret (r, t, d')
      \<longrightarrow> (\<exists>ext. JsonObject_while_log (Suc n) this json d lg = Ret (r, t, d', lg @ ext) \<and> recorded d ext d')"
    using c6 by blast
  have r7: "\<forall>this json d r t d' lg. JsonArray_ParseDeep (Suc n) this json d = Ret (r, t, d')
      \<longrightarrow> (\<exists>ext. JsonArray_ParseDeep_log (Suc n) this json d lg = Ret (r, t, d', lg @ ext) \<and> recorded d ext d')"
    using c7 by blast
  have r8: "\<forall>this json d r t d' lg. JsonArray_while (Suc n) this json d = Ret (r, t, d')
      \<longrightarrow> (\<exists>ext. JsonArray_while_log (Suc n) this json d lg = Ret (r, t, d', lg @ ext) \<and> recorded d ext d')"
    using c8 by blast
  show ?case
    by (intro conjI; fact r1 r2 r3 r4 r5 r6 r7 r8)
qed

lemma Parse_fuel_logged:
  assumes "Parse_fuel n json len d = Ret (e, d')"
  shows "\<exists>calls. Parse_fuel_log n json len d = Ret (e, d', calls)
           \<and> list_all (\<lambda>c. fst c \<noteq> JSON_NO_ERROR) calls
           \<and> error_slot d' = (case calls of [] \<Rightarrow> (JSON_NO_ERROR, None, None) | c # cs \<Rightarrow> c)"
proof (cases json)
  case None
  with assms show ?thesis
    by (auto simp: Parse_fuel_def Parse_fuel_log_def Let_def SetError_def InitDocument_def
                   error_slot_def logged_def)
next
  case (Some str)
  define l where "l = (case len of None \<Rightarrow> strlen str | Some l \<Rightarrow> l)"
  let ?d2 = "(InitDocument ((DeleteChildren (docChildren d) d)\<lparr>docChildren := []\<rparr>))
               \<lparr>charBuffer := take l (str @ [NUL]) @ [NUL]\<rparr>"
  show ?thesis
  proof (cases "byte_at (str @ [NUL]) 0 = NUL
                 \<or> byte_at (str @ [NUL]) (SkipWhiteSpace_loop (str @ [NUL]) 0) = NUL")
    case True
    with assms Some show ?thesis
      by (auto simp: Parse_fuel_def Parse_fuel_log_def Let_def SetError_def InitDocument_def
                     error_slot_def logged_def split: if_splits)
  next
    case False
    from assms Some False have fits: "\<not> length str + 1 < l"
      by (auto simp: Parse_fuel_def Let_def l_def split: if_splits)
    from assms Some False fits obtain r this d3 where
      run: "JsonNode_ParseDeep n [] 0 ?d2 = Ret (r, this, d3)"
      and e: "e = errorID d3" and d': "d' = d3\<lparr>docChildren := this\<rparr>"
      by (auto simp: Parse_fuel_def Let_def l_def[symmetric] split: if_splits run.splits)
    from parse_logged[of n, THEN conjunct1, rule_format, OF run, of "[]"] obtain calls where
      lg: "JsonNode_ParseDeep_log n [] 0 ?d2 [] = Ret (r, this, d3, calls)"
      and rec: "recorded ?d2 calls d3"
      by auto
    have "error_slot ?d2 = (JSON_NO_ERROR, None, None)"
      by (simp add: error_slot_def InitDocument_def)
    with rec have "list_all (\<lambda>c. fst c \<noteq> JSON_NO_ERROR) calls"
      and "error_slot d3 = slot_after (JSON_NO_ERROR, None, None) calls"
      unfolding recorded_def by simp_all
    then have "list_all (\<lambda>c. fst c \<noteq> JSON_NO_ERROR) calls"
      and "error_slot d3 = (case calls of [] \<Rightarrow> (JSON_NO_ERROR, None, None) | c # cs \<Rightarrow> c)"
      by (simp_all add: slot_after_def)
    moreover have "Parse_fuel_log n json len d = Ret (e, d', calls)"
      using Some False fits lg e d'
      by (simp add: Parse_fuel_log_def Let_def l_def[symmetric])
    ultimately show ?thesis
      unfolding d' by (auto simp: error_slot_fields)
  qed
qed


section \<open>The claims\<close>

subsection \<open>Round trip through the printer\<close>

text \<open>
  C1.  Claim: whenever \<open>Parse\<close> succeeds, printing the tree and parsing the printed text
  succeeds again and gives the same tree, also for trees with a Reserved(false) node.

  The printer writes \<^verbatim>\<open>flase\<close> for \<^verbatim>\<open>RESERVED_FALSE\<close>.  On the text \<^verbatim>\<open>false\<close> the parse
  succeeds with one Reserved(false) node, the printed text is \<^verbatim>\<open>flase\<close> whatever the number
  format is, and \<open>Parse\<close> of that text fails with \<^verbatim>\<open>JSON_ERROR_PARSING_RESERVED\<close> and an
  empty tree.
\<close>

theorem roundtrip_false_fails:
  \<open>map_run (\<lambda>(e, d). (e, docChildren d, print_document fmt d,
                map_run (\<lambda>(e', d'). (e', docChildren d'))
                  (Parse (Some (print_document fmt d)) None d)))
     (Parse (Some ''false'') None JsonDocument_init)
   = Ret (JSON_NO_ERROR, [JsonNode (JsonReserved RESERVED_FALSE) ReservedPool []], ''flase'',
          Ret (JSON_ERROR_PARSING_RESERVED, []))\<close>
  by code_simp

subsection \<open>Elements and arrays are parsed with the run loop\<close>

text \<open>
  C4.  Claim: \<open>Parse\<close> of \<^verbatim>\<open>{"a":}\<close> returns \<^verbatim>\<open>JSON_ERROR_PARSING_ELEMENT\<close> and leaves
  the tree empty.

  \<^verbatim>\<open>JsonElement::ParseDeep\<close> parses the value with \<^verbatim>\<open>JsonNode::ParseDeep\<close>, which returns
  the cursor unchanged, and not null, when no value starts there.  The text is accepted: the
  status is \<^verbatim>\<open>JSON_NO_ERROR\<close> and the tree is an Object with one Element that has the key
  as its only child.
\<close>

theorem Parse_missing_value_accepted:
  \<open>map_run (\<lambda>(e, d). (e, docChildren d)) (Parse (Some ''{"a":}'') None JsonDocument_init)
   = Ret (JSON_NO_ERROR,
          [JsonNode JsonObject ObjectPool
             [JsonNode JsonElement ElementPool
                [JsonNode (JsonString (Some (2, 3))) StringPool []]]])\<close>
  by code_simp

text \<open>
  C5.  Claim: after a successful \<open>Parse\<close> every Element has exactly two children, a String
  key and one value.

  The value of an Element is parsed by the same loop that parses a run of values, so
  \<^verbatim>\<open>{"a":1 2}\<close> is accepted and its Element has three children.
\<close>

theorem Parse_element_three_children:
  \<open>map_run (\<lambda>(e, d). (e, docChildren d)) (Parse (Some ''{"a":1 2}'') None JsonDocument_init)
   = Ret (JSON_NO_ERROR,
          [JsonNode JsonObject ObjectPool
             [JsonNode JsonElement ElementPool
                [JsonNode (JsonString (Some (2, 3))) StringPool [],
                 JsonNode (JsonNumber ''1'') NumberPool [],
                 JsonNode (JsonNumber ''2'') NumberPool []]]])\<close>
  by code_simp

text \<open>
  C6.  Claim: two values of an Array that are separated by white space only make \<open>Parse\<close>
  fail.

  The body of an Array is parsed by the run loop, which takes one value after the other
  without asking for a comma; the comma loop of \<^verbatim>\<open>JsonArray::ParseDeep\<close> only runs between
  two such runs.  \<^verbatim>\<open>[1 2]\<close> is accepted as an Array with two Numbers.
\<close>

theorem Parse_array_without_comma_accepted:
  \<open>map_run (\<lambda>(e, d). (e, docChildren d)) (Parse (Some ''[1 2]'') None JsonDocument_init)
   = Ret (JSON_NO_ERROR,
          [JsonNode JsonArray ArrayPool
             [JsonNode (JsonNumber ''1'') NumberPool [],
              JsonNode (JsonNumber ''2'') NumberPool []]])\<close>
  by code_simp

subsection \<open>The string scan and the end of the buffer\<close>

text \<open>
  C10.  Claim: the scan of \<^verbatim>\<open>JsonString::ParseDeep\<close> never reads past the terminating NUL;
  a text that ends in a backslash is reported as an unterminated string.

  After a backslash the scan moves two bytes.  When the backslash is the last byte of the
  text the second step goes over the terminator, and the next read is outside the buffer:
  for the text of a quote and a backslash the scan, started behind the quote, leaves the
  three-byte buffer, and \<open>Parse\<close> does not return a status.
\<close>

theorem string_scan_leaves_buffer:
  \<open>JsonString_scan [DQUOTE, BACKSLASH, NUL] 1 = Fault OutOfBounds
   \<and> Parse (Some [DQUOTE, BACKSLASH]) None JsonDocument_init = Fault OutOfBounds\<close>
  by code_simp

subsection \<open>The dispatch of \<^verbatim>\<open>Identify\<close>\<close>

text \<open>
  C8.  Claim: \<^verbatim>\<open>Identify\<close> skips ASCII white space, never a byte with the high bit set,
  then dispatches on the next byte: \<^verbatim>\<open>n\<close>, \<^verbatim>\<open>t\<close>, \<^verbatim>\<open>f\<close> give a Reserved node; a quote, a
  brace or a bracket give a String, an Object or an Array with the cursor behind that byte;
  \<^verbatim>\<open>-\<close> or a digit give a Number; the end of the input or any other byte give no node, and
  no error is recorded.

  \<open>p\<close> is where the skipping stops: every byte passed is white space of the C locale without
  the high bit, and the byte \<open>c\<close> at \<open>p\<close> has the high bit or is not white space.
\<close>

theorem Identify_dispatch:
  assumes "Identify d json None = (json', node', d')"
    and "p = SkipWhiteSpace_loop (charBuffer d) json"
    and "c = byte_at (charBuffer d) p"
  shows "json \<le> p
    \<and> (\<forall>q. json \<le> q \<and> q < p \<longrightarrow>
          isspace (byte_at (charBuffer d) q) \<and> \<not> IsUTF8Continuation (byte_at (charBuffer d) q))
    \<and> (IsUTF8Continuation c \<or> \<not> isspace c)
    \<and> (c \<in> set ''ntf'' \<longrightarrow> json' = p \<and> node' = Some (JsonNode (JsonReserved RESERVED) ReservedPool []))
    \<and> (c = DQUOTE \<longrightarrow> json' = p + 1 \<and> node' = Some (JsonNode (JsonString None) StringPool []))
    \<and> (c = CHR ''{'' \<longrightarrow> json' = p + 1 \<and> node' = Some (JsonNode JsonObject ObjectPool []))
    \<and> (c = CHR ''['' \<longrightarrow> json' = p + 1 \<and> node' = Some (JsonNode JsonArray ArrayPool []))
    \<and> (c \<in> set ''-0123456789'' \<longrightarrow> json' = p \<and> node' = Some (JsonNode (JsonNumber ''0'') NumberPool []))
    \<and> (c = NUL \<or> c \<notin> set (''ntf{[-0123456789'' @ [DQUOTE]) \<longrightarrow> json' = p \<and> node' = None \<and> d' = d)
    \<and> errorID d' = errorID d \<and> errorStr1 d' = errorStr1 d \<and> errorStr2 d' = errorStr2 d"
  using assms skip_ge[of json "charBuffer d"] skip_stop[of "charBuffer d" json] skip_all[of json _ "charBuffer d"]
  by (auto simp: Identify_def Let_def isdigit_def split: if_splits)

theorem Identify_dispatch_witness:
  \<open>Identify (buffered '' [1]'') 0 None
     = (2, Some (JsonNode JsonArray ArrayPool []), pool_update ArrayPool Alloc (buffered '' [1]''))
   \<and> 1 = SkipWhiteSpace_loop (charBuffer (buffered '' [1]'')) 0
   \<and> CHR ''['' = byte_at (charBuffer (buffered '' [1]'')) 1
   \<and> isspace (byte_at (charBuffer (buffered '' [1]'')) 0)
   \<and> errorID (pool_update ArrayPool Alloc (buffered '' [1]'')) = JSON_NO_ERROR\<close>
proof -
  have h1: \<open>Identify (buffered '' [1]'') 0 None
     = (2, Some (JsonNode JsonArray ArrayPool []), pool_update ArrayPool Alloc (buffered '' [1]''))\<close>
    by code_simp
  have h2: \<open>1 = SkipWhiteSpace_loop (charBuffer (buffered '' [1]'')) 0\<close>
    by code_simp
  have h3: \<open>CHR ''['' = byte_at (charBuffer (buffered '' [1]'')) 1\<close>
    by code_simp
  have h4: \<open>errorID (buffered '' [1]'') = JSON_NO_ERROR\<close>
    by code_simp
  from Identify_dispatch [OF h1 h2 h3] h1 h2 h3 h4 show ?thesis
    by simp
qed

subsection \<open>The first error wins\<close>

text \<open>
  C7.  Claim: during one \<open>Parse\<close> the first error recorded by \<^verbatim>\<open>SetError\<close> is the status
  \<open>Parse\<close> returns: once the slot holds an error, a later \<^verbatim>\<open>SetError\<close> leaves the code and
  both context strings as they are.

  \<^verbatim>\<open>SetError\<close> on a Document that has an error recorded returns the Document unchanged, and
  on a Document without an error it stores its three arguments.  When \<open>Parse\<close> returns (with
  its own recursion budget, or with any other), the run with the list of the calls of
  \<^verbatim>\<open>SetError\<close> returns the same status and Document; no call in the list is one with \<^verbatim>\<open>JSON_NO_ERROR\<close>; the status \<open>Parse\<close> returns is the code in the slot; and
  the slot holds the arguments of the first call of the list, or no error when there was no
  call.  The same holds of each parse routine, from any Document and after any calls made
  before: entered with an error recorded it returns with the same code and strings, and
  entered without one it returns with the arguments of the first call it has made.
  \<^verbatim>\<open>DeleteNode\<close> and the pool operations do not touch the slot.
\<close>

theorem first_error_wins:
  "(errorID d \<noteq> JSON_NO_ERROR \<longrightarrow> SetError e s1 s2 d = d)
   \<and> (errorID d = JSON_NO_ERROR \<longrightarrow> error_slot (SetError e s1 s2 d) = (e, s1, s2))
   \<and> (Parse input len d0 = Ret (e1, d1) \<longrightarrow>
        e1 = errorID d1
        \<and> (\<exists>calls. Parse_log input len d0 = Ret (e1, d1, calls)
              \<and> list_all (\<lambda>c. fst c \<noteq> JSON_NO_ERROR) calls
              \<and> error_slot d1
                  = (case calls of [] \<Rightarrow> (JSON_NO_ERROR, None, None) | c # cs \<Rightarrow> c)))
   \<and> (Parse_fuel n input len d0 = Ret (e2, d2) \<longrightarrow>
        e2 = errorID d2
        \<and> (\<exists>calls. Parse_fuel_log n input len d0 = Ret (e2, d2, calls)
              \<and> list_all (\<lambda>c. fst c \<noteq> JSON_NO_ERROR) calls
              \<and> error_slot d2
                  = (case calls of [] \<Rightarrow> (JSON_NO_ERROR, None, None) | c # cs \<Rightarrow> c)))
   \<and> (JsonNode_ParseDeep n this json d = Ret (r, t, d') \<longrightarrow>
        keeps_error d d'
        \<and> (\<exists>calls. JsonNode_ParseDeep_log n this json d lg = Ret (r, t, d', lg @ calls)
              \<and> recorded d calls d'))
   \<and> (ParseDeep n node json d = Ret (r, t2, d') \<longrightarrow>
        keeps_error d d'
        \<and> (\<exists>calls. ParseDeep_log n node json d lg = Ret (r, t2, d', lg @ calls)
              \<and> recorded d calls d'))
   \<and> (JsonElement_ParseDeep n this json d = Ret (r, t, d') \<longrightarrow>
        keeps_error d d'
        \<and> (\<exists>calls. JsonElement_ParseDeep_log n this json d lg = Ret (r, t, d', lg @ calls)
              \<and> recorded d calls d'))
   \<and> (ParseElement n this json d = Ret (r, t, d') \<longrightarrow>
        keeps_error d d'
        \<and> (\<exists>calls. ParseElement_log n this json d lg = Ret (r, t, d', lg @ calls)
              \<and> recorded d calls d'))
   \<and> (JsonObject_ParseDeep n this json d = Ret (r, t, d') \<longrightarrow>
        keeps_error d d'
        \<and> (\<exists>calls. JsonObject_ParseDeep_log n this json d lg = Ret (r, t, d', lg @ calls)
              \<and> recorded d calls d'))
   \<and> (JsonObject_while n this json' d = Ret (r, t, d') \<longrightarrow>
        keeps_error d d'
        \<and> (\<exists>calls. JsonObject_while_log n this json' d lg = Ret (r, t, d', lg @ calls)
              \<and> recorded d calls d'))
   \<and> (JsonArray_ParseDeep n this json d = Ret (r, t, d') \<longrightarrow>
        keeps_error d d'
        \<and> (\<exists>calls. JsonArray_ParseDeep_log n this json d lg = Ret (r, t, d', lg @ calls)
              \<and> recorded d calls d'))
   \<and> (JsonArray_while n this json d = Ret (r, t, d') \<longrightarrow>
        keeps_error d d'
        \<and> (\<exists>calls. JsonArray_while_log n this json d lg = Ret (r, t, d', lg @ calls)
              \<and> recorded d calls d'))
   \<and> error_slot (DeleteNode nd d) = error_slot d
   \<and> error_slot (pool_update p f d) = error_slot d"
proof -
  have f1: "Parse input len d0 = Ret (e1, d1) \<longrightarrow>
        e1 = errorID d1
        \<and> (\<exists>calls. Parse_log input len d0 = Ret (e1, d1, calls)
              \<and> list_all (\<lambda>c. fst c \<noteq> JSON_NO_ERROR) calls
              \<and> error_slot d1
                  = (case calls of [] \<Rightarrow> (JSON_NO_ERROR, None, None) | c # cs \<Rightarrow> c))"
    unfolding Parse_def Parse_log_def
    using Parse_fuel_status Parse_fuel_logged by blast
  have f6: "Parse_fuel n input len d0 = Ret (e2, d2) \<longrightarrow>
        e2 = errorID d2
        \<and> (\<exists>calls. Parse_fuel_log n input len d0 = Ret (e2, d2, calls)
              \<and> list_all (\<lambda>c. fst c \<noteq> JSON_NO_ERROR) calls
              \<and> error_slot d2
                  = (case calls of [] \<Rightarrow> (JSON_NO_ERROR, None, None) | c # cs \<Rightarrow> c))"
    using Parse_fuel_status Parse_fuel_logged by blast
  have f2: "error_slot (DeleteNode nd d) = error_slot d"
    and f3: "error_slot (pool_update p f d) = error_slot d"
    by (rule error_slot_fields)+
  have f4: "errorID d \<noteq> JSON_NO_ERROR \<longrightarrow> SetError e s1 s2 d = d"
    and f5: "errorID d = JSON_NO_ERROR \<longrightarrow> error_slot (SetError e s1 s2 d) = (e, s1, s2)"
    by (simp_all add: SetError_def error_slot_def)
  have c1: "JsonNode_ParseDeep n this json d = Ret (r, t, d') \<longrightarrow>
        keeps_error d d'
        \<and> (\<exists>calls. JsonNode_ParseDeep_log n this json d lg = Ret (r, t, d', lg @ calls)
              \<and> recorded d calls d')"
    by (intro impI conjI;
        (erule keeps_error_parse [THEN conjunct1, rule_format]
         | erule parse_logged [THEN conjunct1, rule_format]))
  have c2: "ParseDeep n node json d = Ret (r, t2, d') \<longrightarrow>
        keeps_error d d'
        \<and> (\<exists>calls. ParseDeep_log n node json d lg = Ret (r, t2, d', lg @ calls)
              \<and> recorded d calls d')"
    by (intro impI conjI;
        (erule keeps_error_parse [THEN conjunct2, THEN conjunct1, rule_format]
         | erule parse_logged [THEN conjunct2, THEN conjunct1, rule_format]))
  have c3: "JsonElement_ParseDeep n this json d = Ret (r, t, d') \<longrightarrow>
        keeps_error d d'
        \<and> (\<exists>calls. JsonElement_ParseDeep_log n this json d lg = Ret (r, t, d', lg @ calls)
              \<and> recorded d calls d')"
    by (intro impI conjI;
        (erule keeps_error_parse [THEN conjunct2, THEN conjunct2, THEN conjunct1, rule_format]
         | erule parse_logged [THEN conjunct2, THEN conjunct2, THEN conjunct1, rule_format]))
  have c4: "ParseElement n this json d = Ret (r, t, d') \<longrightarrow>
        keeps_error d d'
        \<and> (\<exists>calls. ParseElement_log n this json d lg = Ret (r, t, d', lg @ calls)
              \<and> recorded d calls d')"
    by (intro impI conjI;
        (erule keeps_error_parse [THEN conjunct2, THEN conjunct2, THEN conjunct2, THEN conjunct1, rule_format]
         | erule parse_logged [THEN conjunct2, THEN conjunct2, THEN conjunct2, THEN conjunct1, rule_format]))
  have c5: "JsonObject_ParseDeep n this json d = Ret (r, t, d') \<longrightarrow>
        keeps_error d d'
        \<and> (\<exists>calls. JsonObject_ParseDeep_log n this json d lg = Ret (r, t, d', lg @ calls)
              \<and> recorded d calls d')"
    by (intro impI conjI;
        (erule keeps_error_parse [THEN conjunct2, THEN conjunct2, THEN conjunct2, THEN conjunct2, THEN conjunct1, rule_format]
         | erule parse_logged [THEN conjunct2, THEN conjunct2, THEN conjunct2, THEN conjunct2, THEN conjunct1, rule_format]))
  have c6: "JsonObject_while n this json' d = Ret (r, t, d') \<longrightarrow>
        keeps_error d d'
        \<and> (\<exists>calls. JsonObject_while_log n this json' d lg = Ret (r, t, d', lg @ calls)
              \<and> recorded d calls d')"
    by (intro impI conjI;
        (erule keeps_error_parse [THEN conjunct2, THEN conjunct2, THEN conjunct2, THEN conjunct2, THEN conjunct2, THEN conjunct1, rule_format]
         | erule parse_logged [THEN conjunct2, THEN conjunct2, THEN conjunct2, THEN conjunct2, THEN conjunct2, THEN conjunct1, rule_format]))
  have c7: "JsonArray_ParseDeep n this json d = Ret (r, t, d') \<longrightarrow>
        keeps_error d d'
        \<and> (\<exists>calls. JsonArray_ParseDeep_log n this json d lg = Ret (r, t, d', lg @ calls)
              \<and> recorded d calls d')"
    by (intro impI conjI;
        (erule keeps_error_parse [THEN conjunct2, THEN conjunct2, THEN conjunct2, THEN conjunct2, THEN conjunct2, THEN conjunct2, THEN conjunct1, rule_format]
         | erule parse_logged [THEN conjunct2, THEN conjunct2, THEN conjunct2, THEN conjunct2, THEN conjunct2, THEN conjunct2, THEN conjunct1, rule_format]))
  have c8: "JsonArray_while n this json d = Ret (r, t, d') \<longrightarrow>
        keeps_error d d'
        \<and> (\<exists>calls. JsonArray_while_log n this json d lg = Ret (r, t, d', lg @ calls)
              \<and> recorded d calls d')"
    by (intro impI conjI;
        (erule keeps_error_parse [THEN conjunct2, THEN conjunct2, THEN conjunct2, THEN conjunct2, THEN conjunct2, THEN conjunct2, THEN conjunct2, rule_format]
         | erule parse_logged [THEN conjunct2, THEN conjunct2, THEN conjunct2, THEN conjunct2, THEN conjunct2, THEN conjunct2, THEN conjunct2, rule_format]))
  show ?thesis
    by (intro conjI; fact f1 f2 f3 f4 f5 f6 c1 c2 c3 c4 c5 c6 c7 c8)
qed

theorem first_error_wins_witness:
  \<open>map_run (\<lambda>(e, d). e) (Parse (Some ''-'') None JsonDocument_init)
     = Ret JSON_ERROR_OBJECT_MISMATCH
   \<and> map_run (\<lambda>(e, d, calls). (e, error_slot d, calls))
       (Parse_log (Some ''-'') None JsonDocument_init)
     = Ret (JSON_ERROR_OBJECT_MISMATCH, (JSON_ERROR_OBJECT_MISMATCH, None, None),
            [(JSON_ERROR_OBJECT_MISMATCH, None, None), (JSON_ERROR_PARSING, None, None)])
   \<and> errorID (SetError JSON_ERROR_EMPTY_DOCUMENT None None (buffered [DQUOTE, CHR ''a'']))
     \<noteq> JSON_NO_ERROR
   \<and> SetError JSON_ERROR_PARSING None None
       (SetError JSON_ERROR_EMPTY_DOCUMENT None None (buffered [DQUOTE, CHR ''a'']))
     = SetError JSON_ERROR_EMPTY_DOCUMENT None None (buffered [DQUOTE, CHR ''a''])\<close>
proof -
  let ?d = \<open>SetError JSON_ERROR_EMPTY_DOCUMENT None None (buffered [DQUOTE, CHR ''a''])\<close>
  have e: \<open>errorID ?d \<noteq> JSON_NO_ERROR\<close>
    by code_simp
  have p: \<open>map_run (\<lambda>(e, d). e) (Parse (Some ''-'') None JsonDocument_init)
     = Ret JSON_ERROR_OBJECT_MISMATCH\<close>
    by code_simp
  then obtain d1 where
    h: \<open>Parse (Some ''-'') None JsonDocument_init = Ret (JSON_ERROR_OBJECT_MISMATCH, d1)\<close>
    by (cases \<open>Parse (Some ''-'') None JsonDocument_init\<close>) auto
  have l: \<open>map_run (\<lambda>(e, d, calls). calls) (Parse_log (Some ''-'') None JsonDocument_init)
     = Ret [(JSON_ERROR_OBJECT_MISMATCH, None, None), (JSON_ERROR_PARSING, None, None)]\<close>
    by code_simp
  note w = first_error_wins [where d = \<open>?d\<close> and e = JSON_ERROR_PARSING and ?s1.0 = None
      and ?s2.0 = None and input = \<open>Some ''-''\<close> and len = None and ?d0.0 = JsonDocument_init
      and ?e1.0 = JSON_ERROR_OBJECT_MISMATCH and ?d1.0 = d1]
  from w e have s: \<open>SetError JSON_ERROR_PARSING None None ?d = ?d\<close>
    by blast
  from w h obtain calls where
    c: \<open>Parse_log (Some ''-'') None JsonDocument_init
          = Ret (JSON_ERROR_OBJECT_MISMATCH, d1, calls)\<close>
    and f: \<open>error_slot d1
          = (case calls of [] \<Rightarrow> (JSON_NO_ERROR, None, None) | c # cs \<Rightarrow> c)\<close>
    by blast
  from c l have \<open>calls
      = [(JSON_ERROR_OBJECT_MISMATCH, None, None), (JSON_ERROR_PARSING, None, None)]\<close>
    by simp
  with f have \<open>error_slot d1 = (JSON_ERROR_OBJECT_MISMATCH, None, None)\<close>
    by simp
  with p e s c l show ?thesis
    by simp
qed

subsection \<open>A Number that converts nothing\<close>

text \<open>
  C9.  Claim: when the Number parse consumes no character (as for the text \<^verbatim>\<open>-\<close>) it fails
  and records \<^verbatim>\<open>JSON_ERROR_OBJECT_MISMATCH\<close>, and this is the status \<open>Parse\<close> reports for
  a malformed bare number.

  When \<^verbatim>\<open>strtod\<close> converts nothing at the first byte \<open>p\<close> that is not white space,
  \<^verbatim>\<open>JsonNumber::ParseDeep\<close> returns null and, on a Document without an error, records
  \<^verbatim>\<open>JSON_ERROR_OBJECT_MISMATCH\<close>; the run loop that identified the Number there returns
  null with that code in the slot (its own \<^verbatim>\<open>JSON_ERROR_PARSING\<close> comes second); and
  \<open>Parse\<close> of \<^verbatim>\<open>-\<close> returns \<^verbatim>\<open>JSON_ERROR_OBJECT_MISMATCH\<close> with an empty tree.
\<close>

theorem Number_nothing_consumed:
  assumes "errorID d = JSON_NO_ERROR"
    and "p = SkipWhiteSpace_loop (charBuffer d) json"
    and "strtod_len (c_str (charBuffer d) p) = 0"
  shows "JsonNumber_ParseDeep this json d
           = (None, this, d\<lparr>errorID := JSON_ERROR_OBJECT_MISMATCH, errorStr1 := None,
                             errorStr2 := None\<rparr>)
    \<and> (byte_at (charBuffer d) json \<noteq> NUL
         \<and> (byte_at (charBuffer d) p = CHR ''-'' \<or> isdigit (byte_at (charBuffer d) p))
       \<longrightarrow> (\<exists>d'. JsonNode_ParseDeep (Suc (Suc n)) cs json d = Ret (None, cs, d')
               \<and> error_slot d' = (JSON_ERROR_OBJECT_MISMATCH, None, None)))
    \<and> map_run (\<lambda>(e, d). (e, docChildren d)) (Parse (Some ''-'') None JsonDocument_init)
        = Ret (JSON_ERROR_OBJECT_MISMATCH, [])"
proof (intro conjI impI)
  show "JsonNumber_ParseDeep this json d
           = (None, this, d\<lparr>errorID := JSON_ERROR_OBJECT_MISMATCH, errorStr1 := None,
                             errorStr2 := None\<rparr>)"
    using assms by (simp add: JsonNumber_ParseDeep_def SetError_def)
next
  show "map_run (\<lambda>(e, d). (e, docChildren d)) (Parse (Some ''-'') None JsonDocument_init)
        = Ret (JSON_ERROR_OBJECT_MISMATCH, [])"
    by code_simp
next
  assume a: "byte_at (charBuffer d) json \<noteq> NUL
         \<and> (byte_at (charBuffer d) p = CHR ''-'' \<or> isdigit (byte_at (charBuffer d) p))"
  let ?nd = "JsonNode (JsonNumber ''0'') NumberPool []"
  let ?d1 = "pool_update NumberPool Alloc d"
  have id: "Identify d json None = (p, Some ?nd, ?d1)"
  proof -
    let ?c = "byte_at (charBuffer d) p"
    from a have c: "?c = CHR ''-'' \<or> isdigit ?c" by blast
    then have "?c \<noteq> NUL" "?c \<noteq> CHR ''n''" "?c \<noteq> CHR ''t''" "?c \<noteq> CHR ''f''"
      "?c \<noteq> DQUOTE" "?c \<noteq> CHR ''{''" "?c \<noteq> CHR ''[''"
      by (auto simp: isdigit_def)
    with c show ?thesis
      unfolding Identify_def Let_def assms(2)[symmetric]
      by (simp del: pool_update.simps)
  qed
  have "SkipWhiteSpace_loop (charBuffer d) p = p"
    using a by (subst SkipWhiteSpace_loop.simps) (auto simp: isspace_def isdigit_def)
  then have num: "JsonNumber_ParseDeep ?nd p ?d1
      = (None, ?nd, SetError JSON_ERROR_OBJECT_MISMATCH None None ?d1)"
    using assms(3) by (simp add: JsonNumber_ParseDeep_def)
  have pd: "ParseDeep (Suc n) ?nd p ?d1
      = Ret (None, ?nd, SetError JSON_ERROR_OBJECT_MISMATCH None None ?d1)"
    by (simp add: num del: pool_update.simps)
  let ?d' = "SetError JSON_ERROR_PARSING None None
               (DeleteNode ?nd (pool_update (memPool ?nd) SetTracked
                  (SetError JSON_ERROR_OBJECT_MISMATCH None None ?d1)))"
  have "JsonNode_ParseDeep (Suc (Suc n)) cs json d = Ret (None, cs, ?d')"
    using a by (simp add: id pd SkipWhiteSpace_def del: pool_update.simps DeleteNode.simps ParseDeep.simps)
  moreover have "error_slot ?d' = (JSON_ERROR_OBJECT_MISMATCH, None, None)"
    using assms(1) by (simp add: error_slot_def SetError_def)
  ultimately show "\<exists>d'. JsonNode_ParseDeep (Suc (Suc n)) cs json d = Ret (None, cs, d')
               \<and> error_slot d' = (JSON_ERROR_OBJECT_MISMATCH, None, None)"
    by blast
qed

theorem Number_nothing_consumed_witness:
  \<open>errorID (buffered ''-'') = JSON_NO_ERROR
   \<and> 0 = SkipWhiteSpace_loop (charBuffer (buffered ''-'')) 0
   \<and> strtod_len (c_str (charBuffer (buffered ''-'')) 0) = 0
   \<and> JsonNumber_ParseDeep (JsonNode (JsonNumber ''0'') NumberPool []) 0 (buffered ''-'')
       = (None, JsonNode (JsonNumber ''0'') NumberPool [],
          (buffered ''-'')\<lparr>errorID := JSON_ERROR_OBJECT_MISMATCH, errorStr1 := None,
                             errorStr2 := None\<rparr>)\<close>
proof -
  have h1: \<open>errorID (buffered ''-'') = JSON_NO_ERROR\<close>
    by code_simp
  have h2: \<open>0 = SkipWhiteSpace_loop (charBuffer (buffered ''-'')) 0\<close>
    by code_simp
  have h3: \<open>strtod_len (c_str (charBuffer (buffered ''-'')) 0) = 0\<close>
    by code_simp
  from Number_nothing_consumed [OF h1 h2 h3] h1 h2 h3 show ?thesis
    by blast
qed

subsection \<open>What a failed \<open>Parse\<close> leaves in the tree and in the pools\<close>

text \<open>
  C2.  Claim: whenever \<open>Parse\<close> returns an error the Document has no top-level children,
  also when values had been parsed and linked before the failure.

  The run loop deletes the value whose parse failed and stops; nothing unlinks the values it
  has linked before.  On the text \<^verbatim>\<open>1 "abc\<close> the unterminated String fails and the Number in
  front of it stays in the tree.
\<close>

theorem Parse_failure_keeps_linked_values:
  \<open>map_run (\<lambda>(e, d). (e, docChildren d)) (Parse (Some ''1 "abc'') None JsonDocument_init)
   = Ret (JSON_ERROR_PARSING_STRING, [JsonNode (JsonNumber ''1'') NumberPool []])\<close>
  by code_simp

text \<open>
  C2, as amended.  When \<open>Parse\<close> returns an error, the tree is empty exactly when the text is
  empty (a null pointer, no byte, or white space only) or the value that fails is the first
  top-level value.  (In every other case the values linked before the failure are still
  there.)
\<close>

theorem Parse_failure_tree:
  assumes "Parse_fuel (Suc n) json len d = Ret (e, d')" and "e \<noteq> JSON_NO_ERROR"
  shows "docChildren d' = [] \<longleftrightarrow>
           (empty_text json \<or> first_value_fails n (Parse_prepare json len d))"
  using assms(1)
proof (cases rule: Parse_fuel_cases)
  case (empty b)
  then show ?thesis by (simp add: Parse_prepare_fields)
next
  case (run r this d3)
  let ?d = "Parse_prepare json len d"
  from run(2) show ?thesis
  proof (cases rule: JsonNode_ParseDeep_SucE)
    case eof
    with run(3) assms(2) show ?thesis by (simp add: Parse_prepare_fields)
  next
    case (none j d1)
    with run(3) assms(2) Identify_errorID[OF none(2)] show ?thesis
      by (simp add: Parse_prepare_fields)
  next
    case (fail j nd d1 nd' d2)
    then have "first_value_fails n ?d" by (simp add: first_value_fails_def)
    with fail(5) run(4) show ?thesis by simp
  next
    case (step j nd d1 q nd' d2)
    from loop_extends[OF step(4)] have "this \<noteq> []" by auto
    moreover from step have "\<not> first_value_fails n ?d" by (simp add: first_value_fails_def)
    ultimately show ?thesis using run(1,4) by simp
  qed
qed

theorem Parse_failure_tree_witness:
  \<open>map_run (\<lambda>(e, d). (e, docChildren d))
     (Parse_fuel (Suc 30) (Some ''[1, "x'') None JsonDocument_init)
     = Ret (JSON_ERROR_PARSING_STRING, [])
   \<and> JSON_ERROR_PARSING_STRING \<noteq> JSON_NO_ERROR
   \<and> \<not> empty_text (Some ''[1, "x'')
   \<and> first_value_fails 30 (Parse_prepare (Some ''[1, "x'') None JsonDocument_init)\<close>
proof -
  have r: \<open>map_run (\<lambda>(e, d). (e, docChildren d))
     (Parse_fuel (Suc 30) (Some ''[1, "x'') None JsonDocument_init)
     = Ret (JSON_ERROR_PARSING_STRING, [])\<close>
    by code_simp
  then obtain d' where
    h: \<open>Parse_fuel (Suc 30) (Some ''[1, "x'') None JsonDocument_init
          = Ret (JSON_ERROR_PARSING_STRING, d')\<close> and c: \<open>docChildren d' = []\<close>
    by (cases \<open>Parse_fuel (Suc 30) (Some ''[1, "x'') None JsonDocument_init\<close>) auto
  have ne: \<open>\<not> empty_text (Some ''[1, "x'')\<close>
    by code_simp
  from Parse_failure_tree [OF h] c ne
  have \<open>first_value_fails 30 (Parse_prepare (Some ''[1, "x'') None JsonDocument_init)\<close>
    by simp
  with r ne show ?thesis
    by simp
qed

text \<open>
  C3.  Claim: after every \<open>Parse\<close> that fails on a malformed input, the live-allocation count
  of every pool is zero.

  The values linked before the failure are still allocated: on the text \<^verbatim>\<open>[] "x\<close> the String
  fails and the Array pool has one live allocation, the Array in the tree.
\<close>

theorem Parse_failure_live_allocation:
  \<open>map_run (\<lambda>(e, d). (e, CurrentAllocs (arrayPool d)))
     (Parse (Some ''[] "x'') None JsonDocument_init)
   = Ret (JSON_ERROR_PARSING_STRING, 1)\<close>
  by code_simp

text \<open>
  C3, as amended.  On a Document whose pools are accounted for (a fresh Document is),
  \<open>Parse\<close> returns, with whatever status, a Document whose pools are accounted for: each
  live-allocation count is the number of nodes of that pool linked in the tree, so nothing that
  was allocated for the failed value is still live, and every count is zero when the tree is
  empty.
\<close>

theorem Parse_keeps_account:
  assumes "accounted d" and "Parse_fuel n json len d = Ret (e, d')"
  shows "accounted d' \<and> (docChildren d' = [] \<longrightarrow> (\<forall>pl. CurrentAllocs (pool d' pl) = 0))"
proof -
  have zero: "live (Parse_prepare json len d) pl = 0" for pl
    using assms(1) by (simp add: Parse_prepare_fields accounted_iff)
  from assms(2) have "\<forall>pl. live d' pl = int (nodes_from_list pl (docChildren d'))"
  proof (cases rule: Parse_fuel_cases)
    case (empty b)
    then show ?thesis using zero by (simp add: Parse_prepare_fields live_def)
  next
    case (run r this d3)
    have "balanced (Parse_prepare json len d) [] d3 this"
      by (rule parse_balanced[of n, THEN conjunct1, rule_format, OF run(2)])
    then show ?thesis using zero run(4) by (simp add: balanced_def live_def)
  qed
  then show ?thesis
    by (simp add: accounted_iff live_def)
qed

theorem Parse_keeps_account_witness:
  \<open>accounted JsonDocument_init
   \<and> map_run (\<lambda>(e, d). (e, accounted d, docChildren d))
       (Parse_fuel 31 (Some ''1 "abc'') None JsonDocument_init)
     = Ret (JSON_ERROR_PARSING_STRING, True, [JsonNode (JsonNumber ''1'') NumberPool []])\<close>
proof -
  have a: \<open>accounted JsonDocument_init\<close>
    by code_simp
  have r: \<open>map_run (\<lambda>(e, d). (e, docChildren d))
       (Parse_fuel 31 (Some ''1 "abc'') None JsonDocument_init)
     = Ret (JSON_ERROR_PARSING_STRING, [JsonNode (JsonNumber ''1'') NumberPool []])\<close>
    by code_simp
  then obtain d' where
    h: \<open>Parse_fuel 31 (Some ''1 "abc'') None JsonDocument_init
          = Ret (JSON_ERROR_PARSING_STRING, d')\<close>
    and c: \<open>docChildren d' = [JsonNode (JsonNumber ''1'') NumberPool []]\<close>
    by (cases \<open>Parse_fuel 31 (Some ''1 "abc'') None JsonDocument_init\<close>) auto
  from Parse_keeps_account [OF a h] have \<open>accounted d'\<close>
    by simp
  with a h c show ?thesis
    by simp
qed

end
